theory Spec2Isabelle
  imports Main
begin

section \<open>Data model of \<^verbatim>\<open>tools/unicode_dbl_width.py\<close>\<close>

text \<open>
  The script reads the \<^verbatim>\<open>char\<close> elements of the flat UCD XML file, folds them into
  runs of one width (\<^verbatim>\<open>get_ranges\<close>), and writes two C \<^verbatim>\<open>switch\<close> tables from the
  runs (\<^verbatim>\<open>gen_ambigous\<close>, \<^verbatim>\<open>gen_wide\<close>) and a threshold test (\<^verbatim>\<open>gen_header\<close>).

  Exceptions are values: a function that can raise returns \<open>error + 'a\<close>.
  Reading the XML file (lines 16 to 19) is left out: the input of the model is the list
  \<^verbatim>\<open>chars\<close> of the elements found. The script is run as its first line says, so its
  \<^verbatim>\<open>assert\<close> statement is executed.
\<close>

datatype error = AssertionError | TypeError | ValueError | IndexError

text \<open>\<^verbatim>\<open>Range = namedtuple('range', ['width', 'start', 'end'])\<close>. The width is the Python
  string the source stores; the bounds are Python integers.\<close>

record Range =
  width :: string
  start :: int
  end_cp :: int

text \<open>One \<^verbatim>\<open>char\<close> element, reduced to the three attributes the script reads with
  \<^verbatim>\<open>c.get\<close>; an absent attribute is \<open>None\<close>.\<close>

record ucd_char =
  ea :: "string option"
  cp :: "string option"
  ExtPict :: "string option"

section \<open>Python primitives used by the script\<close>

text \<open>\<^verbatim>\<open>sub in s\<close> for two strings: \<open>sub\<close> occurs in \<open>s\<close> as a contiguous piece.\<close>

fun str_in :: "string \<Rightarrow> string \<Rightarrow> bool" where
  "str_in sub [] = (sub = [])"
| "str_in sub (c # cs) = (take (length sub) (c # cs) = sub \<or> str_in sub cs)"

text \<open>The format specification \<^verbatim>\<open>{n:X}\<close>: upper-case hexadecimal, a minus sign in front of
  a negative number.\<close>

definition hex_digit :: "nat \<Rightarrow> char" where
  "hex_digit d = ''0123456789ABCDEF'' ! d"

function format_X_nat :: "nat \<Rightarrow> string" where
  "format_X_nat n =
     (if n < 16 then [hex_digit n] else format_X_nat (n div 16) @ [hex_digit (n mod 16)])"
  by pat_completeness auto
termination
  by (relation "measure (\<lambda>n. n)") auto

definition format_X :: "int \<Rightarrow> string" where
  "format_X i = (if i < 0 then ''-'' @ format_X_nat (nat (- i)) else format_X_nat (nat i))"

text \<open>A reader for the \<^verbatim>\<open>cp\<close> attributes of the UCD file, which are plain hexadecimal
  digit strings; on these it agrees with \<^verbatim>\<open>int(s, 16)\<close>. The extraction below takes the
  reader as its parameter \<open>int16\<close> (\<open>None\<close> where \<^verbatim>\<open>int\<close> raises \<^verbatim>\<open>ValueError\<close>), so
  nothing proved about it depends on this one; it serves the concrete runs.\<close>

definition hex_value :: "char \<Rightarrow> nat option" where
  "hex_value c =
     (let n = (of_char c :: nat) in
      if 48 \<le> n \<and> n \<le> 57 then Some (n - 48)
      else if 65 \<le> n \<and> n \<le> 70 then Some (n - 55)
      else if 97 \<le> n \<and> n \<le> 102 then Some (n - 87)
      else None)"

fun hex_digits :: "nat \<Rightarrow> string \<Rightarrow> nat option" where
  "hex_digits acc [] = Some acc"
| "hex_digits acc (c # cs) =
     (case hex_value c of None \<Rightarrow> None | Some d \<Rightarrow> hex_digits (16 * acc + d) cs)"

definition hex_int :: "string \<Rightarrow> int option" where
  "hex_int s = (if s = [] then None else map_option int (hex_digits 0 s))"

section \<open>The property extractor: \<^verbatim>\<open>get_ranges\<close>\<close>

text \<open>
  Lines 24 to 38, the part of the loop body that reads one element: the result is the
  exception raised, or \<open>None\<close> where the body reaches \<^verbatim>\<open>continue\<close>, or the pair
  \<^verbatim>\<open>(ea, cp)\<close> handed to the accumulation below.

  \<^item> \<^verbatim>\<open>ea in ('Na', 'H')\<close> is a tuple membership test (false for \<^verbatim>\<open>None\<close>);
  \<^item> \<^verbatim>\<open>ea in ('F')\<close> has no comma, so \<^verbatim>\<open>('F')\<close> is the string \<^verbatim>\<open>'F'\<close> and the test is
    a substring test: it raises \<^verbatim>\<open>TypeError\<close> for \<^verbatim>\<open>None\<close>;
  \<^item> the assertion comes before the test of \<^verbatim>\<open>cp\<close>;
  \<^item> \<^verbatim>\<open>not cp\<close> holds for an absent and for an empty attribute.
\<close>

definition read_char ::
  "(string \<Rightarrow> int option) \<Rightarrow> bool \<Rightarrow> ucd_char \<Rightarrow> error + (string \<times> int) option" where
  "read_char int16 emoji_as_wide c =
     (let ea1 = (if ea c \<in> {Some ''Na'', Some ''H''} then Some ''N'' else ea c) in
      case ea1 of
        None \<Rightarrow> Inl TypeError
      | Some s1 \<Rightarrow>
          (let ea2 = (if str_in s1 ''F'' then ''W'' else s1) in
           if ea2 \<notin> {''N'', ''A'', ''W''} then Inl AssertionError
           else
             (case cp c of
                None \<Rightarrow> Inr None
              | Some s \<Rightarrow>
                  if s = [] then Inr None
                  else
                    (let ea3 = (if emoji_as_wide \<and> ExtPict c = Some ''Y'' then ''W'' else ea2) in
                     case int16 s of
                       None \<Rightarrow> Inl ValueError
                     | Some n \<Rightarrow> Inr (Some (ea3, n))))))"

text \<open>The loop of lines 23 to 43 with its two variables \<^verbatim>\<open>ranges\<close> and \<^verbatim>\<open>range\<close>,
  and line 45 at its end.\<close>

fun get_ranges_loop ::
  "(string \<Rightarrow> int option) \<Rightarrow> bool \<Rightarrow> ucd_char list \<Rightarrow> Range list \<Rightarrow> Range \<Rightarrow> error + Range list"
  where
  "get_ranges_loop int16 emoji_as_wide [] ranges rng = Inr (ranges @ [rng])"
| "get_ranges_loop int16 emoji_as_wide (c # chars) ranges rng =
     (case read_char int16 emoji_as_wide c of
        Inl err \<Rightarrow> Inl err
      | Inr None \<Rightarrow> get_ranges_loop int16 emoji_as_wide chars ranges rng
      | Inr (Some (k, n)) \<Rightarrow>
          if k \<noteq> width rng
          then get_ranges_loop int16 emoji_as_wide chars (ranges @ [rng])
                 \<lparr>width = k, start = n, end_cp = n\<rparr>
          else get_ranges_loop int16 emoji_as_wide chars ranges (rng\<lparr>end_cp := n\<rparr>))"

definition get_ranges ::
  "(string \<Rightarrow> int option) \<Rightarrow> ucd_char list \<Rightarrow> bool \<Rightarrow> error + Range list" where
  "get_ranges int16 chars emoji_as_wide =
     get_ranges_loop int16 emoji_as_wide chars [] \<lparr>width = ''N'', start = 0, end_cp = 0\<rparr>"

section \<open>The range merger: \<^verbatim>\<open>merge_ranges\<close> and \<^verbatim>\<open>skip_ranges\<close>\<close>

fun merge_ranges_loop ::
  "(Range \<Rightarrow> Range \<Rightarrow> bool) \<Rightarrow> Range list \<Rightarrow> Range list \<Rightarrow> Range \<Rightarrow> Range list" where
  "merge_ranges_loop is_same_width [] res rng = res @ [rng]"
| "merge_ranges_loop is_same_width (r # rs) res rng =
     (if is_same_width r rng
      then merge_ranges_loop is_same_width rs res (rng\<lparr>end_cp := end_cp r\<rparr>)
      else merge_ranges_loop is_same_width rs (res @ [rng]) r)"

text \<open>\<^verbatim>\<open>range = ranges[0]\<close> raises \<^verbatim>\<open>IndexError\<close> on the empty list; the loop then runs over
  the whole list, its first element included.\<close>

definition merge_ranges ::
  "Range list \<Rightarrow> (Range \<Rightarrow> Range \<Rightarrow> bool) \<Rightarrow> error + Range list" where
  "merge_ranges ranges is_same_width =
     (case ranges of
        [] \<Rightarrow> Inl IndexError
      | r0 # _ \<Rightarrow> Inr (merge_ranges_loop is_same_width ranges [] r0))"

fun skip_ranges_loop :: "Range list \<Rightarrow> string list \<Rightarrow> Range list \<Rightarrow> Range list" where
  "skip_ranges_loop [] width_skipped res = res"
| "skip_ranges_loop (r # rs) width_skipped res =
     (if width r \<notin> set width_skipped
      then skip_ranges_loop rs width_skipped (res @ [r])
      else skip_ranges_loop rs width_skipped res)"

definition skip_ranges :: "Range list \<Rightarrow> string list \<Rightarrow> Range list" where
  "skip_ranges ranges width_skipped = skip_ranges_loop ranges width_skipped []"

text \<open>The two nested functions \<^verbatim>\<open>is_same_width\<close>, of \<^verbatim>\<open>gen_ambigous\<close> and of
  \<^verbatim>\<open>gen_wide\<close>.\<close>

definition is_same_width_ambigous :: "Range \<Rightarrow> Range \<Rightarrow> bool" where
  "is_same_width_ambigous r1 r2 =
     (if width r1 = ''N'' then width r2 = ''N'' else width r2 \<in> {''A'', ''W''})"

definition is_same_width_wide :: "Range \<Rightarrow> Range \<Rightarrow> bool" where
  "is_same_width_wide r1 r2 =
     (if width r1 \<in> {''N'', ''A''} then width r2 \<in> {''N'', ''A''} else width r2 = ''W'')"

text \<open>Lines 110 and 111, and lines 147 and 148: the ranges each table is written from.
  \<^verbatim>\<open>ranges[1:]\<close> is \<open>drop 1\<close> (a slice never raises).\<close>

definition ambigous_ranges :: "Range list \<Rightarrow> error + Range list" where
  "ambigous_ranges ranges =
     (case merge_ranges (drop 1 ranges) is_same_width_ambigous of
        Inl err \<Rightarrow> Inl err
      | Inr merged \<Rightarrow> Inr (skip_ranges merged [''N'']))"

definition wide_ranges :: "Range list \<Rightarrow> error + Range list" where
  "wide_ranges ranges =
     (case merge_ranges (drop 1 ranges) is_same_width_wide of
        Inl err \<Rightarrow> Inl err
      | Inr merged \<Rightarrow> Inr (skip_ranges merged [''N'', ''A'']))"

section \<open>The table emitter\<close>

text \<open>A file is the list of the strings written to it, in order. A function that raises
  returns the exception only: what it had already written is not part of the result.\<close>

definition nl :: string where
  "nl = [CHR 0x0A]"

definition header_top :: string where
  "header_top =
     ''/* XXX: Code generated by tool unicode_dbl_width.py */'' @ nl @
     ''#ifndef _TERMPTY_DBL_H__'' @ nl @
     ''#define _TERMPTY_DBL_H__ 1'' @ nl @
     nl @
     ''Eina_Bool _termpty_is_wide(const Eina_Unicode g);'' @ nl @
     ''Eina_Bool _termpty_is_ambigous_wide(const Eina_Unicode g);'' @ nl @
     nl @
     ''static inline Eina_Bool'' @ nl @
     ''_termpty_is_dblwidth_get(const Termpty *ty, const Eina_Unicode g)'' @ nl @
     ''{'' @ nl @
     ''   /* optimize for latin1 non-ambiguous */'' @ nl"

definition header_bottom :: string where
  "header_bottom =
     nl @
     ''     return EINA_FALSE;'' @ nl @
     ''   if (!ty->termstate.cjk_ambiguous_wide)'' @ nl @
     ''     return _termpty_is_wide(g);'' @ nl @
     ''   else'' @ nl @
     ''     return _termpty_is_ambigous_wide(g);'' @ nl @
     ''}'' @ nl @
     nl @
     ''#endif'' @ nl"

text \<open>The threshold test of line 82.\<close>

definition threshold_line :: "Range \<Rightarrow> string" where
  "threshold_line rng = ''   if (g <= 0x'' @ format_X (end_cp rng) @ '')''"

definition gen_header :: "Range \<Rightarrow> string list" where
  "gen_header rng = [header_top, threshold_line rng, header_bottom]"

definition switch_top :: "string \<Rightarrow> string" where
  "switch_top name =
     nl @
     ''__attribute__((const))'' @ nl @
     ''Eina_Bool'' @ nl @
     name @ ''(Eina_Unicode g)'' @ nl @
     ''{'' @ nl @
     ''    switch (g)'' @ nl @
     ''      {'' @ nl"

definition switch_bottom :: string where
  "switch_bottom =
     nl @
     ''        return EINA_TRUE;'' @ nl @
     ''    }'' @ nl @
     ''   return EINA_FALSE;'' @ nl @
     ''}'' @ nl"

text \<open>The two \<^verbatim>\<open>write\<close> calls of lines 119 to 122 (and 155 to 158).\<close>

definition case_line :: "Range \<Rightarrow> string \<Rightarrow> string" where
  "case_line r fallthrough =
     (if start r = end_cp r
      then ''       case 0x'' @ format_X (start r) @ '':'' @ fallthrough @ nl
      else ''       case 0x'' @ format_X (start r) @ '' ... 0x'' @ format_X (end_cp r) @ '':''
             @ fallthrough @ nl)"

text \<open>The loop \<^verbatim>\<open>for idx, r in enumerate(ranges)\<close> of each emitter: \<open>n\<close> is
  \<^verbatim>\<open>len(ranges)\<close>, and \<^verbatim>\<open>fallthrough\<close> is the variable the loop overwrites.\<close>

fun gen_ambigous_loop :: "nat \<Rightarrow> nat \<Rightarrow> string \<Rightarrow> Range list \<Rightarrow> string list" where
  "gen_ambigous_loop n idx fallthrough [] = []"
| "gen_ambigous_loop n idx fallthrough (r # rs) =
     (if width r = ''N'' then gen_ambigous_loop n (idx + 1) fallthrough rs
      else
        (let fallthrough' = (if int idx = int n - 1 then [] else fallthrough) in
         case_line r fallthrough' # gen_ambigous_loop n (idx + 1) fallthrough' rs))"

fun gen_wide_loop :: "nat \<Rightarrow> nat \<Rightarrow> string \<Rightarrow> Range list \<Rightarrow> string list" where
  "gen_wide_loop n idx fallthrough [] = []"
| "gen_wide_loop n idx fallthrough (r # rs) =
     (if width r \<in> {''N'', ''A''} then gen_wide_loop n (idx + 1) fallthrough rs
      else
        (let fallthrough' = (if int idx = int n - 1 then [] else fallthrough) in
         case_line r fallthrough' # gen_wide_loop n (idx + 1) fallthrough' rs))"

definition EINA_FALLTHROUGH :: string where
  "EINA_FALLTHROUGH = '' EINA_FALLTHROUGH;''"

definition ambigous_cases :: "Range list \<Rightarrow> string list" where
  "ambigous_cases ranges = gen_ambigous_loop (length ranges) 0 EINA_FALLTHROUGH ranges"

definition wide_cases :: "Range list \<Rightarrow> string list" where
  "wide_cases ranges = gen_wide_loop (length ranges) 0 EINA_FALLTHROUGH ranges"

definition gen_ambigous :: "Range list \<Rightarrow> error + string list" where
  "gen_ambigous ranges =
     (case ambigous_ranges ranges of
        Inl err \<Rightarrow> Inl err
      | Inr kept \<Rightarrow>
          Inr ([switch_top ''_termpty_is_ambigous_wide''] @ ambigous_cases kept @ [switch_bottom]))"

definition gen_wide :: "Range list \<Rightarrow> error + string list" where
  "gen_wide ranges =
     (case wide_ranges ranges of
        Inl err \<Rightarrow> Inl err
      | Inr kept \<Rightarrow> Inr ([switch_top ''_termpty_is_wide''] @ wide_cases kept @ [switch_bottom]))"

definition source_top :: string where
  "source_top =
     ''/* XXX: Code generated by tool unicode_dbl_width.py */'' @ nl @
     ''#include '' @ [CHR 0x22] @ ''private.h'' @ [CHR 0x22] @ nl @
     nl @
     ''#include <Elementary.h>'' @ nl @
     ''#include '' @ [CHR 0x22] @ ''termpty.h'' @ [CHR 0x22] @ nl @
     ''#include '' @ [CHR 0x22] @ ''termptydbl.h'' @ [CHR 0x22] @ nl"

text \<open>\<^verbatim>\<open>gen_c\<close>: the result is the pair of the header file and the source file.
  \<^verbatim>\<open>ranges[0]\<close> raises \<^verbatim>\<open>IndexError\<close> on the empty list.\<close>

definition gen_c :: "Range list \<Rightarrow> error + (string list \<times> string list)" where
  "gen_c ranges =
     (case ranges of
        [] \<Rightarrow> Inl IndexError
      | r0 # _ \<Rightarrow>
          (case gen_ambigous ranges of
             Inl err \<Rightarrow> Inl err
           | Inr amb \<Rightarrow>
               (case gen_wide ranges of
                  Inl err \<Rightarrow> Inl err
                | Inr wide \<Rightarrow> Inr (gen_header r0, [source_top] @ amb @ wide))))"

text \<open>Lines 189 and 190: the script calls \<^verbatim>\<open>get_ranges(args.xml, True)\<close> and hands the
  result to \<^verbatim>\<open>gen_c\<close>.\<close>

definition main :: "(string \<Rightarrow> int option) \<Rightarrow> ucd_char list \<Rightarrow> error + (string list \<times> string list)"
  where
  "main int16 chars =
     (case get_ranges int16 chars True of
        Inl err \<Rightarrow> Inl err
      | Inr ranges \<Rightarrow> gen_c ranges)"

section \<open>Notions the properties are stated with\<close>

text \<open>A code point lies in a range when it is between its bounds, both included, as
  in the C \<^verbatim>\<open>case start ... end:\<close> the range is written to.\<close>

definition in_range :: "int \<Rightarrow> Range \<Rightarrow> bool" where
  "in_range p r = (start r \<le> p \<and> p \<le> end_cp r)"

text \<open>The fold as the specification words it: the accumulator starts as the first range,
  and only the ranges after it are visited. For each of them, when \<open>is_same_width\<close> of it
  and the accumulator holds the accumulator's end is widened to its end, otherwise the
  accumulator is emitted and replaced by it; at the end the accumulator is emitted.\<close>

fun fold_ranges :: "(Range \<Rightarrow> Range \<Rightarrow> bool) \<Rightarrow> Range \<Rightarrow> Range list \<Rightarrow> Range list" where
  "fold_ranges is_same_width acc [] = [acc]"
| "fold_ranges is_same_width acc (r # rs) =
     (if is_same_width r acc
      then fold_ranges is_same_width (acc\<lparr>end_cp := end_cp r\<rparr>) rs
      else acc # fold_ranges is_same_width r rs)"

definition merge_spec :: "Range list \<Rightarrow> (Range \<Rightarrow> Range \<Rightarrow> bool) \<Rightarrow> Range list" where
  "merge_spec ranges is_same_width =
     (case ranges of
        [] \<Rightarrow> []
      | first # subsequent \<Rightarrow> fold_ranges is_same_width first subsequent)"

text \<open>The stream of pairs (effective class, code point) that the loop body of
  \<^verbatim>\<open>get_ranges\<close> hands to its accumulation: one pair for each element that has a code
  point, in the order of the file.\<close>

fun points :: "(string \<Rightarrow> int option) \<Rightarrow> bool \<Rightarrow> ucd_char list \<Rightarrow> (string \<times> int) list" where
  "points int16 emoji_as_wide [] = []"
| "points int16 emoji_as_wide (c # chars) =
     (case read_char int16 emoji_as_wide c of
        Inr (Some kn) \<Rightarrow> kn # points int16 emoji_as_wide chars
      | _ \<Rightarrow> points int16 emoji_as_wide chars)"

text \<open>The accumulation of lines 39 to 45 on such a stream, from the current range
  \<open>rng\<close> on.\<close>

fun runs :: "Range \<Rightarrow> (string \<times> int) list \<Rightarrow> Range list" where
  "runs rng [] = [rng]"
| "runs rng ((k, n) # ps) =
     (if k \<noteq> width rng then rng # runs \<lparr>width = k, start = n, end_cp = n\<rparr> ps
      else runs (rng\<lparr>end_cp := n\<rparr>) ps)"

text \<open>The effective class of an element as the specification words it: the raw width with
  Na and H turned into N and F into W, and W whenever emoji are to be wide and the element
  carries \<^verbatim>\<open>ExtPict="Y"\<close>.\<close>

definition effective_class :: "bool \<Rightarrow> ucd_char \<Rightarrow> string option" where
  "effective_class emoji_as_wide c =
     (if emoji_as_wide \<and> ExtPict c = Some ''Y'' then Some ''W''
      else map_option
        (\<lambda>s. if s \<in> {''Na'', ''H''} then ''N'' else if s = ''F'' then ''W'' else s) (ea c))"

text \<open>The end of the first maximal run of class N that starts at code point 0: the code
  point of the last element of the longest all-narrow prefix of the stream, and 0 when the
  stream does not start with a narrow element.\<close>

definition narrow_run_end :: "(string \<times> int) list \<Rightarrow> int" where
  "narrow_run_end ps =
     (case takeWhile (\<lambda>kn. fst kn = ''N'') ps of [] \<Rightarrow> 0 | kn # kns \<Rightarrow> snd (last (kn # kns)))"

text \<open>What a table is expected to look like: the label of a range is a single match value
  when the range is one code point and an inclusive bounded match otherwise; every label
  but the last is followed by the continuation marker.\<close>

definition case_label :: "Range \<Rightarrow> string" where
  "case_label r =
     (if start r = end_cp r then ''       case 0x'' @ format_X (start r) @ '':''
      else ''       case 0x'' @ format_X (start r) @ '' ... 0x'' @ format_X (end_cp r) @ '':'')"

definition expected_cases :: "Range list \<Rightarrow> string list" where
  "expected_cases kept =
     map (\<lambda>r. case_label r @ '' EINA_FALLTHROUGH;'' @ [CHR 0x0A]) (butlast kept)
     @ (if kept = [] then [] else [case_label (last kept) @ [CHR 0x0A]])"

section \<open>Concrete streams\<close>

text \<open>A small stream in the shape of the UCD file: a group header without code point,
  Latin, ambiguous and halfwidth characters, two wide ones and a narrow emoji.\<close>

definition sample_chars :: "ucd_char list" where
  "sample_chars =
     [\<lparr>ea = Some ''N'', cp = None, ExtPict = None\<rparr>,
      \<lparr>ea = Some ''Na'', cp = Some ''0041'', ExtPict = None\<rparr>,
      \<lparr>ea = Some ''A'', cp = Some ''00A1'', ExtPict = None\<rparr>,
      \<lparr>ea = Some ''H'', cp = Some ''00A2'', ExtPict = None\<rparr>,
      \<lparr>ea = Some ''A'', cp = Some ''00A3'', ExtPict = None\<rparr>,
      \<lparr>ea = Some ''F'', cp = Some ''3000'', ExtPict = None\<rparr>,
      \<lparr>ea = Some ''W'', cp = Some ''3001'', ExtPict = None\<rparr>,
      \<lparr>ea = Some ''N'', cp = Some ''1F600'', ExtPict = Some ''Y''\<rparr>]"

definition sample_ranges :: "Range list" where
  "sample_ranges =
     [\<lparr>width = ''N'', start = 0, end_cp = 65\<rparr>,
      \<lparr>width = ''A'', start = 161, end_cp = 161\<rparr>,
      \<lparr>width = ''N'', start = 162, end_cp = 162\<rparr>,
      \<lparr>width = ''A'', start = 163, end_cp = 163\<rparr>,
      \<lparr>width = ''W'', start = 12288, end_cp = 128512\<rparr>]"

text \<open>A stream with narrow characters only.\<close>

definition narrow_chars :: "ucd_char list" where
  "narrow_chars =
     [\<lparr>ea = Some ''Na'', cp = Some ''0041'', ExtPict = None\<rparr>,
      \<lparr>ea = Some ''H'', cp = Some ''00A2'', ExtPict = None\<rparr>]"

text \<open>Code point 0 with an ambiguous width, and a single narrow emoji.\<close>

definition zero_chars :: "ucd_char list" where
  "zero_chars = [\<lparr>ea = Some ''A'', cp = Some ''0000'', ExtPict = None\<rparr>]"

definition emoji_chars :: "ucd_char list" where
  "emoji_chars = [\<lparr>ea = Some ''N'', cp = Some ''1F600'', ExtPict = Some ''Y''\<rparr>]"

section \<open>The loops as list functions\<close>

lemma skip_ranges_loop_filter:
  "skip_ranges_loop rs ws res = res @ filter (\<lambda>r. width r \<notin> set ws) rs"
  by (induction rs arbitrary: res) simp_all

lemma skip_ranges_filter: "skip_ranges rs ws = filter (\<lambda>r. width r \<notin> set ws) rs"
  by (simp add: skip_ranges_def skip_ranges_loop_filter)

lemma merge_ranges_loop_fold:
  "merge_ranges_loop f rs res acc = res @ fold_ranges f acc rs"
  by (induction rs arbitrary: res acc) simp_all

lemma merge_ranges_fold:
  "f r0 r0 \<Longrightarrow> merge_ranges (r0 # rs) f = Inr (fold_ranges f r0 rs)"
  by (simp add: merge_ranges_def merge_ranges_loop_fold)

lemma get_ranges_loop_runs:
  "get_ranges_loop int16 e cs ranges rng = Inr out \<Longrightarrow>
     out = ranges @ runs rng (points int16 e cs)"
proof (induction cs arbitrary: ranges rng)
  case Nil
  then show ?case by simp
next
  case (Cons c cs)
  then show ?case
    by (auto split: sum.splits option.splits prod.splits if_splits dest!: Cons.IH)
qed

lemma get_ranges_runs:
  "get_ranges int16 chars e = Inr ranges \<Longrightarrow>
     ranges = runs \<lparr>width = ''N'', start = 0, end_cp = 0\<rparr> (points int16 e chars)"
  using get_ranges_loop_runs [of int16 e chars "[]"] by (simp add: get_ranges_def)

section \<open>What \<^verbatim>\<open>read_char\<close> returns\<close>

lemma str_in_F: "str_in s ''F'' \<longleftrightarrow> s = [] \<or> s = ''F''"
  by (cases s) auto

lemma read_char_width:
  "read_char int16 e c = Inr (Some (k, n)) \<Longrightarrow> k \<in> {''N'', ''A'', ''W''}"
  unfolding read_char_def Let_def
  by (auto split: option.splits if_splits)

lemma read_char_class:
  assumes "read_char int16 e c = Inr (Some (k, n))" and "ea c \<noteq> Some []"
  shows "effective_class e c = Some k"
proof -
  obtain s where s: "ea c = Some s"
    using assms(1) by (cases "ea c") (simp_all add: read_char_def)
  with assms(2) have ne: "s \<noteq> []" by simp
  define s1 where "s1 = (if s \<in> {''Na'', ''H''} then ''N'' else s)"
  define s2 where "s2 = (if str_in s1 ''F'' then ''W'' else s1)"
  have ea1: "(if ea c \<in> {Some ''Na'', Some ''H''} then Some ''N'' else ea c) = Some s1"
    by (simp add: s s1_def)
  have "read_char int16 e c =
      (if s2 \<notin> {''N'', ''A'', ''W''} then Inl AssertionError
       else case cp c of None \<Rightarrow> Inr None
         | Some t \<Rightarrow> if t = [] then Inr None
             else case int16 t of None \<Rightarrow> Inl ValueError
               | Some m \<Rightarrow> Inr (Some (if e \<and> ExtPict c = Some ''Y'' then ''W'' else s2, m)))"
    unfolding read_char_def Let_def ea1 option.case s2_def ..
  with assms(1) have k: "k = (if e \<and> ExtPict c = Some ''Y'' then ''W'' else s2)"
    by (auto split: if_splits option.splits)
  have "s2 = (if s \<in> {''Na'', ''H''} then ''N'' else if s = ''F'' then ''W'' else s)"
    unfolding s2_def s1_def str_in_F using ne by simp
  with k show ?thesis by (simp add: effective_class_def s)
qed

lemma read_char_point:
  assumes "read_char int16 e c = Inr x" and "cp c = Some s" and "s \<noteq> []" and "int16 s = Some n"
  shows "\<exists>k. x = Some (k, n)"
  using assms unfolding read_char_def Let_def
  by (auto split: option.splits if_splits simp del: str_in.simps)

lemma read_char_AssertionError:
  "read_char int16 e c = Inl AssertionError \<longleftrightarrow>
     (\<exists>s. ea c = Some s \<and> s \<notin> {''Na'', ''N'', ''H'', ''A'', ''W'', ''F'', []})"
  unfolding read_char_def Let_def str_in_F
  by (auto split: option.splits if_splits)

lemma read_char_TypeError: "read_char int16 e c = Inl TypeError \<longleftrightarrow> ea c = None"
  unfolding read_char_def Let_def str_in_F
  by (auto split: option.splits if_splits)

lemma points_iff:
  "kn \<in> set (points int16 e chars) \<longleftrightarrow> (\<exists>c\<in>set chars. read_char int16 e c = Inr (Some kn))"
  by (induction chars) (auto split: sum.splits option.splits)

lemma points_width: "kn \<in> set (points int16 e chars) \<Longrightarrow> fst kn \<in> {''N'', ''A'', ''W''}"
proof (induction chars)
  case Nil
  then show ?case by simp
next
  case (Cons c chars)
  then show ?case
    by (cases kn) (auto split: sum.splits option.splits dest: read_char_width)
qed

lemma get_ranges_loop_reads:
  "get_ranges_loop int16 e cs ranges rng = Inr out \<Longrightarrow> c \<in> set cs \<Longrightarrow>
     \<exists>x. read_char int16 e c = Inr x"
proof (induction cs arbitrary: ranges rng)
  case Nil
  then show ?case by simp
next
  case (Cons a cs)
  show ?case
  proof (cases "c = a")
    case True
    with Cons.prems(1) show ?thesis by (cases "read_char int16 e a") simp_all
  next
    case False
    with Cons.prems(2) have "c \<in> set cs" by simp
    with Cons.prems(1) Cons.IH show ?thesis
      by (auto split: sum.splits option.splits prod.splits if_splits)
  qed
qed

lemma get_ranges_point:
  assumes "get_ranges int16 chars e = Inr ranges" and "c \<in> set chars"
    and "cp c = Some s" and "s \<noteq> []" and "int16 s = Some n"
  shows "\<exists>k. read_char int16 e c = Inr (Some (k, n)) \<and> (k, n) \<in> set (points int16 e chars)"
proof -
  from assms(1,2) obtain x where x: "read_char int16 e c = Inr x"
    unfolding get_ranges_def using get_ranges_loop_reads by blast
  from read_char_point [OF x assms(3-5)] obtain k where "x = Some (k, n)" by blast
  with x assms(2) show ?thesis by (auto simp: points_iff)
qed

section \<open>Shape of the extractor's result\<close>

lemma runs_nonempty: "runs rng ps \<noteq> []"
  by (induction rng ps rule: runs.induct) simp_all

lemma runs_hd: "width (hd (runs rng ps)) = width rng \<and> start (hd (runs rng ps)) = start rng"
  by (induction ps arbitrary: rng) auto

lemma runs_hd_end:
  "end_cp (hd (runs rng ps)) =
     (case takeWhile (\<lambda>kn. fst kn = width rng) ps of
        [] \<Rightarrow> end_cp rng | kn # kns \<Rightarrow> snd (last (kn # kns)))"
proof (induction rng ps rule: runs.induct)
  case (1 rng)
  then show ?case by simp
next
  case (2 rng k n ps)
  show ?case
  proof (cases "k \<noteq> width rng")
    case True
    then show ?thesis by simp
  next
    case False
    with "2.IH"(2) show ?thesis by (simp split: list.splits)
  qed
qed

lemma runs_all_same:
  "\<forall>kn\<in>set ps. fst kn = width rng \<Longrightarrow> length (runs rng ps) = 1"
  by (induction ps arbitrary: rng) auto

lemma runs_width:
  "width rng \<in> V \<Longrightarrow> \<forall>kn\<in>set ps. fst kn \<in> V \<Longrightarrow> r \<in> set (runs rng ps) \<Longrightarrow> width r \<in> V"
proof (induction rng ps rule: runs.induct)
  case (1 rng)
  then show ?case by simp
next
  case (2 rng k n ps)
  show ?case
  proof (cases "k \<noteq> width rng")
    case True
    with "2.prems" have "r = rng \<or> r \<in> set (runs \<lparr>width = k, start = n, end_cp = n\<rparr> ps)"
      by simp
    then show ?thesis using "2.IH"(1) [OF True] "2.prems" by auto
  next
    case False
    with "2.prems" have "r \<in> set (runs (rng\<lparr>end_cp := n\<rparr>) ps)" by simp
    then show ?thesis using "2.IH"(2) [OF False] "2.prems" by auto
  qed
qed

lemma get_ranges_width:
  assumes "get_ranges int16 chars e = Inr ranges" and "r \<in> set ranges"
  shows "width r \<in> {''N'', ''A'', ''W''}"
proof -
  have "ranges = runs \<lparr>width = ''N'', start = 0, end_cp = 0\<rparr> (points int16 e chars)"
    using assms(1) by (rule get_ranges_runs)
  with assms(2) show ?thesis
    using runs_width [of "\<lparr>width = ''N'', start = 0, end_cp = 0\<rparr>" "{''N'', ''A'', ''W''}"
        "points int16 e chars" r] points_width [of _ int16 e chars]
    by auto
qed

subsection \<open>On a stream in increasing order\<close>

lemma runs_chain:
  assumes "sorted_wrt (<) (map snd ps)"
    and "\<forall>kn\<in>set ps. end_cp rng \<le> snd kn \<and> (snd kn = end_cp rng \<longrightarrow> fst kn = width rng)"
    and "start rng \<le> end_cp rng"
  shows "sorted_wrt (\<lambda>a b. end_cp a < start b) (runs rng ps)
       \<and> (\<forall>r\<in>set (runs rng ps). start r \<le> end_cp r \<and> start rng \<le> start r)
       \<and> (\<forall>kn\<in>set ps. \<exists>r\<in>set (runs rng ps). in_range (snd kn) r \<and> width r = fst kn)
       \<and> (\<exists>e rest. runs rng ps = rng\<lparr>end_cp := e\<rparr> # rest \<and> end_cp rng \<le> e)"
  using assms
proof (induction ps arbitrary: rng)
  case Nil
  have "runs rng [] = rng\<lparr>end_cp := end_cp rng\<rparr> # [] \<and> end_cp rng \<le> end_cp rng" by simp
  then have "\<exists>e rest. runs rng [] = rng\<lparr>end_cp := e\<rparr> # rest \<and> end_cp rng \<le> e" by blast
  with Nil show ?case by simp
next
  case (Cons kn ps)
  obtain k n where kn: "kn = (k, n)" by (cases kn)
  from Cons.prems(1) have sorted: "sorted_wrt (<) (map snd ps)"
    and above: "\<forall>kn'\<in>set ps. n < snd kn'"
    by (auto simp: kn)
  from Cons.prems(2) have n: "end_cp rng \<le> n" "n = end_cp rng \<longrightarrow> k = width rng"
    by (auto simp: kn)
  show ?case
  proof (cases "k \<noteq> width rng")
    case True
    let ?new = "\<lparr>width = k, start = n, end_cp = n\<rparr>"
    from True n have lt: "end_cp rng < n" by auto
    have "\<forall>kn'\<in>set ps. end_cp ?new \<le> snd kn' \<and> (snd kn' = end_cp ?new \<longrightarrow> fst kn' = width ?new)"
      using above by auto
    from Cons.IH [OF sorted this] obtain e rest
      where chain: "sorted_wrt (\<lambda>a b. end_cp a < start b) (runs ?new ps)"
        and bounds: "\<forall>r\<in>set (runs ?new ps). start r \<le> end_cp r \<and> n \<le> start r"
        and cover: "\<forall>kn'\<in>set ps. \<exists>r\<in>set (runs ?new ps). in_range (snd kn') r \<and> width r = fst kn'"
        and shape: "runs ?new ps = ?new\<lparr>end_cp := e\<rparr> # rest" "n \<le> e"
      by auto
    have eq: "runs rng (kn # ps) = rng # runs ?new ps" using True by (simp add: kn)
    have c1: "sorted_wrt (\<lambda>a b. end_cp a < start b) (runs rng (kn # ps))"
      unfolding eq using chain bounds lt by fastforce
    have c2: "\<forall>r\<in>set (runs rng (kn # ps)). start r \<le> end_cp r \<and> start rng \<le> start r"
      unfolding eq using bounds lt Cons.prems(3) by fastforce
    have "?new\<lparr>end_cp := e\<rparr> \<in> set (runs ?new ps)" using shape by simp
    moreover have "in_range n (?new\<lparr>end_cp := e\<rparr>) \<and> width (?new\<lparr>end_cp := e\<rparr>) = k"
      using shape(2) by (simp add: in_range_def)
    ultimately have "\<exists>r\<in>set (runs ?new ps). in_range n r \<and> width r = k" by blast
    with cover have c3: "\<forall>kn'\<in>set (kn # ps). \<exists>r\<in>set (runs rng (kn # ps)).
        in_range (snd kn') r \<and> width r = fst kn'"
      unfolding eq by (auto simp: kn)
    have "rng # runs ?new ps = rng\<lparr>end_cp := end_cp rng\<rparr> # runs ?new ps" by simp
    then have c4: "\<exists>e rest. runs rng (kn # ps) = rng\<lparr>end_cp := e\<rparr> # rest \<and> end_cp rng \<le> e"
      unfolding eq by blast
    from c1 c2 c3 c4 show ?thesis by blast
  next
    case False
    let ?ext = "rng\<lparr>end_cp := n\<rparr>"
    have "\<forall>kn'\<in>set ps. end_cp ?ext \<le> snd kn' \<and> (snd kn' = end_cp ?ext \<longrightarrow> fst kn' = width ?ext)"
      using above by auto
    moreover have "start ?ext \<le> end_cp ?ext" using Cons.prems(3) n by simp
    ultimately obtain e rest
      where chain: "sorted_wrt (\<lambda>a b. end_cp a < start b) (runs ?ext ps)"
        and bounds: "\<forall>r\<in>set (runs ?ext ps). start r \<le> end_cp r \<and> start rng \<le> start r"
        and cover: "\<forall>kn'\<in>set ps. \<exists>r\<in>set (runs ?ext ps). in_range (snd kn') r \<and> width r = fst kn'"
        and shape: "runs ?ext ps = ?ext\<lparr>end_cp := e\<rparr> # rest" "n \<le> e"
      using Cons.IH [OF sorted, of ?ext] by auto
    have eq: "runs rng (kn # ps) = runs ?ext ps" using False by (simp add: kn)
    have "?ext\<lparr>end_cp := e\<rparr> \<in> set (runs ?ext ps)" using shape by simp
    moreover have "in_range n (?ext\<lparr>end_cp := e\<rparr>) \<and> width (?ext\<lparr>end_cp := e\<rparr>) = k"
      using shape(2) Cons.prems(3) n False by (simp add: in_range_def)
    ultimately have "\<exists>r\<in>set (runs ?ext ps). in_range n r \<and> width r = k" by blast
    with cover have c3: "\<forall>kn'\<in>set (kn # ps). \<exists>r\<in>set (runs rng (kn # ps)).
        in_range (snd kn') r \<and> width r = fst kn'"
      unfolding eq by (auto simp: kn)
    have "?ext\<lparr>end_cp := e\<rparr> = rng\<lparr>end_cp := e\<rparr>" by simp
    with shape n have c4: "\<exists>e rest. runs rng (kn # ps) = rng\<lparr>end_cp := e\<rparr> # rest \<and> end_cp rng \<le> e"
      unfolding eq by (intro exI [of _ e] exI [of _ rest]) simp
    from chain bounds c3 c4 show ?thesis unfolding eq by blast
  qed
qed

lemma runs_tail_chain:
  assumes "sorted_wrt (<) (map snd ps)"
  shows "sorted_wrt (\<lambda>a b. end_cp a < start b) (tl (runs rng ps))
       \<and> (\<forall>r\<in>set (tl (runs rng ps)). start r \<le> end_cp r)
       \<and> (\<forall>kn\<in>set ps. fst kn \<noteq> width rng \<longrightarrow>
            (\<exists>r\<in>set (tl (runs rng ps)). in_range (snd kn) r \<and> width r = fst kn))"
  using assms
proof (induction ps arbitrary: rng)
  case Nil
  then show ?case by simp
next
  case (Cons kn ps)
  obtain k n where kn: "kn = (k, n)" by (cases kn)
  from Cons.prems have sorted: "sorted_wrt (<) (map snd ps)"
    and above: "\<forall>kn'\<in>set ps. n < snd kn'"
    by (auto simp: kn)
  show ?case
  proof (cases "k \<noteq> width rng")
    case True
    let ?new = "\<lparr>width = k, start = n, end_cp = n\<rparr>"
    have eq: "tl (runs rng (kn # ps)) = runs ?new (kn # ps)" using True by (simp add: kn)
    have "sorted_wrt (<) (map snd (kn # ps))" using Cons.prems .
    moreover have "\<forall>kn'\<in>set (kn # ps).
        end_cp ?new \<le> snd kn' \<and> (snd kn' = end_cp ?new \<longrightarrow> fst kn' = width ?new)"
      using above by (auto simp: kn)
    moreover have "start ?new \<le> end_cp ?new" by simp
    ultimately show ?thesis unfolding eq using runs_chain [of "kn # ps" ?new] by blast
  next
    case False
    then have eq: "runs rng (kn # ps) = runs (rng\<lparr>end_cp := n\<rparr>) ps" by (simp add: kn)
    from Cons.IH [OF sorted, of "rng\<lparr>end_cp := n\<rparr>"] False
    show ?thesis unfolding eq by (auto simp: kn)
  qed
qed

lemma in_range_unique:
  assumes "sorted_wrt (\<lambda>a b. end_cp a < start b) rs"
    and "\<forall>r\<in>set rs. start r \<le> end_cp r"
    and "r \<in> set rs" and "in_range p r"
  shows "filter (in_range p) rs = [r]"
  using assms
proof (induction rs)
  case Nil
  then show ?case by simp
next
  case (Cons x rs)
  show ?case
  proof (cases "r = x")
    case True
    have "\<not> in_range p y" if "y \<in> set rs" for y
      using Cons.prems(1,4) that True by (fastforce simp: in_range_def)
    then have "filter (in_range p) rs = []" by (simp add: filter_empty_conv)
    with True Cons.prems(4) show ?thesis by simp
  next
    case False
    with Cons.prems have r: "r \<in> set rs" by simp
    have "end_cp x < start r" using Cons.prems(1) r by simp
    moreover have "start x \<le> end_cp x" using Cons.prems(2) by simp
    ultimately have "\<not> in_range p x" using Cons.prems(4) by (simp add: in_range_def)
    moreover have "filter (in_range p) rs = [r]"
      using Cons.IH Cons.prems r by simp
    ultimately show ?thesis by simp
  qed
qed

section \<open>Shape of the merger's result\<close>

lemma is_same_width_ambigous_refl:
  "width r \<in> {''N'', ''A'', ''W''} \<Longrightarrow> is_same_width_ambigous r r"
  by (auto simp: is_same_width_ambigous_def)

lemma is_same_width_wide_refl:
  "width r \<in> {''N'', ''A'', ''W''} \<Longrightarrow> is_same_width_wide r r"
  by (auto simp: is_same_width_wide_def)

lemma is_same_width_wide_keep:
  "is_same_width_wide a b \<Longrightarrow> (width a \<notin> set [''N'', ''A'']) = (width b \<notin> set [''N'', ''A''])"
  by (auto simp: is_same_width_wide_def split: if_splits)

lemma is_same_width_ambigous_keep:
  "is_same_width_ambigous a b \<Longrightarrow> (width a \<notin> set [''N'']) = (width b \<notin> set [''N''])"
  by (auto simp: is_same_width_ambigous_def split: if_splits)

lemma fold_ranges_hd: "\<exists>e rest. fold_ranges f acc rs = acc\<lparr>end_cp := e\<rparr> # rest"
proof (induction rs arbitrary: acc)
  case Nil
  have "fold_ranges f acc [] = acc\<lparr>end_cp := end_cp acc\<rparr> # []" by simp
  then show ?case by blast
next
  case (Cons r rs)
  show ?case
  proof (cases "f r acc")
    case True
    from Cons.IH [of "acc\<lparr>end_cp := end_cp r\<rparr>"] obtain e rest
      where "fold_ranges f (acc\<lparr>end_cp := end_cp r\<rparr>) rs = acc\<lparr>end_cp := e\<rparr> # rest" by auto
    with True show ?thesis by auto
  next
    case False
    then have "fold_ranges f acc (r # rs) = acc\<lparr>end_cp := end_cp acc\<rparr> # fold_ranges f r rs"
      by simp
    then show ?thesis by blast
  qed
qed

lemma fold_ranges_origin:
  "r' \<in> set (fold_ranges f acc rs) \<Longrightarrow>
     \<exists>r\<in>set (acc # rs). width r' = width r \<and> start r' = start r"
proof (induction rs arbitrary: acc)
  case Nil
  then show ?case by simp
next
  case (Cons r rs)
  show ?case
  proof (cases "f r acc")
    case True
    with Cons.prems have "r' \<in> set (fold_ranges f (acc\<lparr>end_cp := end_cp r\<rparr>) rs)" by simp
    from Cons.IH [OF this] show ?thesis by auto
  next
    case False
    with Cons.prems have "r' = acc \<or> r' \<in> set (fold_ranges f r rs)" by simp
    then show ?thesis using Cons.IH [of r] by auto
  qed
qed

lemma merge_ranges_origin:
  assumes "merge_ranges rs f = Inr out" and "r' \<in> set out"
  shows "\<exists>r\<in>set rs. width r' = width r \<and> start r' = start r"
proof (cases rs)
  case Nil
  with assms show ?thesis by (simp add: merge_ranges_def)
next
  case (Cons r0 rs')
  with assms have "r' \<in> set (fold_ranges f r0 (r0 # rs'))"
    by (auto simp: merge_ranges_def merge_ranges_loop_fold)
  from fold_ranges_origin [OF this] show ?thesis using Cons by auto
qed

lemma fold_ranges_adjacent:
  assumes "\<And>a b. f a b \<longleftrightarrow> g (width a) (width b)"
    and "\<And>v w. v \<in> V \<Longrightarrow> w \<in> V \<Longrightarrow> g v w \<Longrightarrow> g w v"
    and "\<forall>r\<in>set (acc # rs). width r \<in> V"
  shows "successively (\<lambda>r1 r2. \<not> f r1 r2) (fold_ranges f acc rs)"
  using assms(3)
proof (induction rs arbitrary: acc)
  case Nil
  then show ?case by simp
next
  case (Cons r rs)
  show ?case
  proof (cases "f r acc")
    case True
    with Cons.IH [of "acc\<lparr>end_cp := end_cp r\<rparr>"] Cons.prems show ?thesis by simp
  next
    case False
    obtain e rest where shape: "fold_ranges f r rs = r\<lparr>end_cp := e\<rparr> # rest"
      using fold_ranges_hd by blast
    from False have "\<not> g (width r) (width acc)" by (simp add: assms(1))
    with assms(2) [of "width acc" "width r"] Cons.prems
    have "\<not> g (width acc) (width r)" by auto
    then have "\<not> f acc (r\<lparr>end_cp := e\<rparr>)" by (simp add: assms(1))
    moreover have "successively (\<lambda>r1 r2. \<not> f r1 r2) (fold_ranges f r rs)"
      using Cons.IH [of r] Cons.prems by simp
    ultimately show ?thesis using False shape by simp
  qed
qed

lemma is_same_width_ambigous_adjacent:
  assumes "\<forall>r\<in>set (acc # rs). width r \<in> {''N'', ''A'', ''W''}"
  shows "successively (\<lambda>r1 r2. \<not> is_same_width_ambigous r1 r2)
           (fold_ranges is_same_width_ambigous acc rs)"
proof (rule fold_ranges_adjacent
    [of is_same_width_ambigous "\<lambda>v w. if v = ''N'' then w = ''N'' else w \<in> {''A'', ''W''}"
      "{''N'', ''A'', ''W''}"])
  show "is_same_width_ambigous a b =
      (if width a = ''N'' then width b = ''N'' else width b \<in> {''A'', ''W''})" for a b
    by (simp add: is_same_width_ambigous_def)
  show "if w = ''N'' then v = ''N'' else v \<in> {''A'', ''W''}"
    if "v \<in> {''N'', ''A'', ''W''}" "w \<in> {''N'', ''A'', ''W''}"
      "if v = ''N'' then w = ''N'' else w \<in> {''A'', ''W''}" for v w
    using that by (auto split: if_splits)
qed (rule assms)

lemma is_same_width_wide_adjacent:
  assumes "\<forall>r\<in>set (acc # rs). width r \<in> {''N'', ''A'', ''W''}"
  shows "successively (\<lambda>r1 r2. \<not> is_same_width_wide r1 r2)
           (fold_ranges is_same_width_wide acc rs)"
proof (rule fold_ranges_adjacent
    [of is_same_width_wide
      "\<lambda>v w. if v \<in> {''N'', ''A''} then w \<in> {''N'', ''A''} else w = ''W''"
      "{''N'', ''A'', ''W''}"])
  show "is_same_width_wide a b =
      (if width a \<in> {''N'', ''A''} then width b \<in> {''N'', ''A''} else width b = ''W'')" for a b
    by (simp add: is_same_width_wide_def)
  show "if w \<in> {''N'', ''A''} then v \<in> {''N'', ''A''} else v = ''W''"
    if "v \<in> {''N'', ''A'', ''W''}" "w \<in> {''N'', ''A'', ''W''}"
      "if v \<in> {''N'', ''A''} then w \<in> {''N'', ''A''} else w = ''W''" for v w
    using that by (auto split: if_splits)
qed (rule assms)

lemma fold_ranges_cover:
  assumes "\<And>a b. f a b \<Longrightarrow> keep (width a) = keep (width b)"
    and "sorted_wrt (\<lambda>a b. end_cp a < start b) (acc # rs)"
    and "\<forall>r\<in>set (acc # rs). start r \<le> end_cp r"
    and "r \<in> set (acc # rs)" and "keep (width r)"
  shows "\<exists>r'\<in>set (fold_ranges f acc rs).
           keep (width r') \<and> start r' \<le> start r \<and> end_cp r \<le> end_cp r'"
  using assms(2-5)
proof (induction rs arbitrary: acc r)
  case Nil
  then show ?case by simp
next
  case (Cons x rs)
  from Cons.prems(1) have lt: "end_cp acc < start x"
    and chain: "sorted_wrt (\<lambda>a b. end_cp a < start b) (x # rs)" by simp_all
  from Cons.prems(2) have le: "start acc \<le> end_cp acc" "start x \<le> end_cp x" by simp_all
  show ?case
  proof (cases "f x acc")
    case True
    let ?acc = "acc\<lparr>end_cp := end_cp x\<rparr>"
    have c: "sorted_wrt (\<lambda>a b. end_cp a < start b) (?acc # rs)" using chain by simp
    have b: "\<forall>r\<in>set (?acc # rs). start r \<le> end_cp r"
      using Cons.prems(2) lt le by simp
    have keq: "keep (width x) = keep (width acc)" using assms(1) [OF True] .
    have eq: "fold_ranges f acc (x # rs) = fold_ranges f ?acc rs" using True by simp
    consider "r = acc" | "r = x" | "r \<in> set rs" using Cons.prems(3) by auto
    then show ?thesis
    proof cases
      case 1
      with Cons.prems(4) have "keep (width ?acc)" by simp
      from Cons.IH [OF c b _ this, of ] obtain r'
        where "r' \<in> set (fold_ranges f ?acc rs)" "keep (width r')"
          "start r' \<le> start ?acc" "end_cp ?acc \<le> end_cp r'" by auto
      with 1 lt le show ?thesis unfolding eq by (intro bexI [of _ r']) auto
    next
      case 2
      with Cons.prems(4) keq have "keep (width ?acc)" by simp
      from Cons.IH [OF c b _ this] obtain r'
        where "r' \<in> set (fold_ranges f ?acc rs)" "keep (width r')"
          "start r' \<le> start ?acc" "end_cp ?acc \<le> end_cp r'" by auto
      with 2 lt le show ?thesis unfolding eq by (intro bexI [of _ r']) auto
    next
      case 3
      then have "r \<in> set (?acc # rs)" by simp
      from Cons.IH [OF c b this Cons.prems(4)] show ?thesis unfolding eq .
    qed
  next
    case False
    then have eq: "fold_ranges f acc (x # rs) = acc # fold_ranges f x rs" by simp
    show ?thesis
    proof (cases "r = acc")
      case True
      with Cons.prems(4) show ?thesis unfolding eq by auto
    next
      case False
      with Cons.prems(3) have "r \<in> set (x # rs)" by simp
      from Cons.IH [OF chain _ this Cons.prems(4)] Cons.prems(2)
      show ?thesis unfolding eq by auto
    qed
  qed
qed

lemma table_covers:
  assumes f: "\<And>a b. f a b \<Longrightarrow> keep (width a) = keep (width b)"
    and refl: "\<And>r. r \<in> set rs \<Longrightarrow> f r r"
    and chain: "sorted_wrt (\<lambda>a b. end_cp a < start b) rs"
    and bounds: "\<forall>r\<in>set rs. start r \<le> end_cp r"
    and r: "r \<in> set rs" "keep (width r)" "in_range p r"
  shows "\<exists>merged. merge_ranges rs f = Inr merged
           \<and> (\<exists>r'\<in>set merged. keep (width r') \<and> in_range p r')"
proof (cases rs)
  case Nil
  with r show ?thesis by simp
next
  case (Cons r0 rest)
  have m: "merge_ranges rs f = Inr (fold_ranges f r0 rest)"
    unfolding Cons using refl [of r0] Cons by (intro merge_ranges_fold) simp
  from fold_ranges_cover [of f keep r0 rest r] f chain bounds r(1,2) obtain r'
    where "r' \<in> set (fold_ranges f r0 rest)" "keep (width r')"
      "start r' \<le> start r" "end_cp r \<le> end_cp r'"
    unfolding Cons by blast
  with r(3) m show ?thesis by (auto simp: in_range_def)
qed

lemma ambigous_ranges_kept: "ambigous_ranges ranges = Inr kept \<Longrightarrow> \<forall>r\<in>set kept. width r \<noteq> ''N''"
  by (auto simp: ambigous_ranges_def skip_ranges_filter split: sum.splits)

lemma wide_ranges_kept:
  "wide_ranges ranges = Inr kept \<Longrightarrow> \<forall>r\<in>set kept. width r \<notin> {''N'', ''A''}"
  by (auto simp: wide_ranges_def skip_ranges_filter split: sum.splits)

lemma ambigous_ranges_tail: "ambigous_ranges (first # rest) = ambigous_ranges (first' # rest)"
  by (simp add: ambigous_ranges_def)

lemma wide_ranges_tail: "wide_ranges (first # rest) = wide_ranges (first' # rest)"
  by (simp add: wide_ranges_def)

section \<open>The concrete streams, evaluated\<close>

lemma hex_int_samples:
  "hex_int ''0041'' = Some 65" "hex_int ''00A1'' = Some 161" "hex_int ''00A2'' = Some 162"
  "hex_int ''00A3'' = Some 163" "hex_int ''3000'' = Some 12288" "hex_int ''3001'' = Some 12289"
  "hex_int ''1F600'' = Some 128512" "hex_int ''0'' = Some 0" "hex_int ''41'' = Some 65"
  by (simp_all add: hex_int_def hex_value_def)

lemma format_X_samples:
  "format_X 161 = ''A1''" "format_X 163 = ''A3''" "format_X 12288 = ''3000''"
  "format_X 128512 = ''1F600''" "format_X 65 = ''41''"
  by (simp_all add: format_X_def hex_digit_def)

lemma points_sample:
  "points hex_int True sample_chars =
     [(''N'', 65), (''A'', 161), (''N'', 162), (''A'', 163), (''W'', 12288), (''W'', 12289),
      (''W'', 128512)]"
  by (simp add: sample_chars_def read_char_def hex_int_samples)

lemma get_ranges_sample: "get_ranges hex_int sample_chars True = Inr sample_ranges"
  by (simp add: get_ranges_def sample_chars_def sample_ranges_def read_char_def hex_int_samples)

lemma wide_ranges_sample:
  "wide_ranges sample_ranges = Inr [\<lparr>width = ''W'', start = 12288, end_cp = 128512\<rparr>]"
  by (simp add: wide_ranges_def sample_ranges_def merge_ranges_def is_same_width_wide_def
      skip_ranges_def)

lemma ambigous_ranges_sample:
  "ambigous_ranges sample_ranges =
     Inr [\<lparr>width = ''A'', start = 161, end_cp = 161\<rparr>,
          \<lparr>width = ''A'', start = 163, end_cp = 128512\<rparr>]"
  by (simp add: ambigous_ranges_def sample_ranges_def merge_ranges_def
      is_same_width_ambigous_def skip_ranges_def)

section \<open>C1: every code point of the stream lies in one range of its class\<close>

text \<open>
  C1, as the code has it. Let the elements with a code point come in strictly increasing
  order of non-negative code points, and let code point 0, if the stream has it, be of
  class N. Then the ranges \<^verbatim>\<open>get_ranges\<close> returns do not overlap, their starts increase
  strictly, and every code point of the stream lies in exactly one of them; for an element
  whose raw width is not the empty string the width of that range is the element's
  effective class.
\<close>

theorem ranges_cover_points:
  assumes "get_ranges int16 chars emoji_as_wide = Inr ranges"
    and "sorted_wrt (<) (map snd (points int16 emoji_as_wide chars))"
    and "\<forall>kn\<in>set (points int16 emoji_as_wide chars).
           0 \<le> snd kn \<and> (snd kn = 0 \<longrightarrow> fst kn = ''N'')"
  shows "sorted_wrt (\<lambda>a b. end_cp a < start b) ranges
       \<and> sorted_wrt (\<lambda>a b. start a < start b) ranges
       \<and> (\<forall>r\<in>set ranges. start r \<le> end_cp r)
       \<and> (\<forall>c\<in>set chars. \<forall>s n. cp c = Some s \<and> s \<noteq> [] \<and> int16 s = Some n \<longrightarrow>
            (\<exists>r. filter (in_range n) ranges = [r]
               \<and> (ea c \<noteq> Some [] \<longrightarrow> Some (width r) = effective_class emoji_as_wide c)))"
proof -
  let ?rng = "\<lparr>width = ''N'', start = 0, end_cp = 0\<rparr>"
  let ?ps = "points int16 emoji_as_wide chars"
  have runs: "ranges = runs ?rng ?ps" using assms(1) by (rule get_ranges_runs)
  have "\<forall>kn\<in>set ?ps. end_cp ?rng \<le> snd kn \<and> (snd kn = end_cp ?rng \<longrightarrow> fst kn = width ?rng)"
    using assms(3) by simp
  moreover have "start ?rng \<le> end_cp ?rng" by simp
  ultimately have chain: "sorted_wrt (\<lambda>a b. end_cp a < start b) ranges"
    and bounds: "\<forall>r\<in>set ranges. start r \<le> end_cp r"
    and cover: "\<forall>kn\<in>set ?ps. \<exists>r\<in>set ranges. in_range (snd kn) r \<and> width r = fst kn"
    unfolding runs using runs_chain [OF assms(2), of ?rng] by blast+
  have starts: "sorted_wrt (\<lambda>a b. start a < start b) ranges"
  proof (rule sorted_wrt_mono_rel [OF _ chain])
    fix a b assume "a \<in> set ranges" "b \<in> set ranges" "end_cp a < start b"
    with bounds show "start a < start b" by force
  qed
  have each: "\<exists>r. filter (in_range n) ranges = [r]
      \<and> (ea c \<noteq> Some [] \<longrightarrow> Some (width r) = effective_class emoji_as_wide c)"
    if c: "c \<in> set chars" and s: "cp c = Some s" "s \<noteq> []" "int16 s = Some n" for c s n
  proof -
    from get_ranges_point [OF assms(1) c s] obtain k
      where k: "read_char int16 emoji_as_wide c = Inr (Some (k, n))" and "(k, n) \<in> set ?ps"
      by blast
    with cover obtain r where r: "r \<in> set ranges" "in_range n r" "width r = k" by force
    have "filter (in_range n) ranges = [r]"
      using in_range_unique [OF chain bounds r(1,2)] .
    moreover have "Some (width r) = effective_class emoji_as_wide c" if "ea c \<noteq> Some []"
      using read_char_class [OF k that] r(3) by simp
    ultimately show ?thesis by blast
  qed
  from chain starts bounds each show ?thesis by blast
qed

theorem ranges_cover_points_witness:
  "get_ranges hex_int sample_chars True = Inr sample_ranges
   \<and> map snd (points hex_int True sample_chars) = [65, 161, 162, 163, 12288, 12289, 128512]
   \<and> sorted_wrt (\<lambda>a b. end_cp a < start b) sample_ranges
   \<and> filter (in_range 128512) sample_ranges = [\<lparr>width = ''W'', start = 12288, end_cp = 128512\<rparr>]
   \<and> effective_class True \<lparr>ea = Some ''N'', cp = Some ''1F600'', ExtPict = Some ''Y''\<rparr>
       = Some ''W''"
proof -
  have s: "sorted_wrt (<) (map snd (points hex_int True sample_chars))"
    by (simp add: points_sample)
  have z: "\<forall>kn\<in>set (points hex_int True sample_chars).
      0 \<le> snd kn \<and> (snd kn = 0 \<longrightarrow> fst kn = ''N'')"
    by (simp add: points_sample)
  from ranges_cover_points [OF get_ranges_sample s z]
  have "sorted_wrt (\<lambda>a b. end_cp a < start b) sample_ranges" by blast
  moreover have "filter (in_range 128512) sample_ranges
      = [\<lparr>width = ''W'', start = 12288, end_cp = 128512\<rparr>]"
    by (simp add: sample_ranges_def in_range_def)
  ultimately show ?thesis
    by (simp add: get_ranges_sample points_sample effective_class_def)
qed

text \<open>Without the condition on code point 0 the claim fails: when code point 0 is
  ambiguous, the placeholder range and the first real range both hold it, and both start
  at 0.\<close>

theorem code_point_zero_in_two_ranges:
  "get_ranges hex_int zero_chars False
     = Inr [\<lparr>width = ''N'', start = 0, end_cp = 0\<rparr>, \<lparr>width = ''A'', start = 0, end_cp = 0\<rparr>]
   \<and> filter (in_range 0)
       [\<lparr>width = ''N'', start = 0, end_cp = 0\<rparr>, \<lparr>width = ''A'', start = 0, end_cp = 0\<rparr>]
     = [\<lparr>width = ''N'', start = 0, end_cp = 0\<rparr>, \<lparr>width = ''A'', start = 0, end_cp = 0\<rparr>]
   \<and> \<not> start \<lparr>width = ''N'', start = 0, end_cp = 0\<rparr>
       < start \<lparr>width = ''A'', start = 0, end_cp = 0\<rparr>"
  by (simp add: get_ranges_def zero_chars_def read_char_def hex_int_def hex_value_def
      in_range_def)

section \<open>C2: an emoji forced to wide\<close>

text \<open>
  C2, as the code has it. With \<^verbatim>\<open>emoji_as_wide\<close> set, an element that carries
  \<^verbatim>\<open>ExtPict="Y"\<close> and whose raw width is narrow (Na, N or H) is read with effective class W;
  on a stream in strictly increasing order its code point lies in a range of the wide table
  and in a range of the ambiguous table as well, since that table keeps the ranges of width
  A and of width W.
\<close>

theorem emoji_in_both_tables:
  assumes "get_ranges int16 chars True = Inr ranges"
    and "sorted_wrt (<) (map snd (points int16 True chars))"
    and "c \<in> set chars" and "ExtPict c = Some ''Y''"
    and "ea c \<in> {Some ''Na'', Some ''N'', Some ''H''}"
    and "cp c = Some s" and "s \<noteq> []" and "int16 s = Some n"
  shows "read_char int16 True c = Inr (Some (''W'', n))
       \<and> effective_class True c = Some ''W''
       \<and> (\<exists>kept. wide_ranges ranges = Inr kept \<and> list_ex (in_range n) kept)
       \<and> (\<exists>kept. ambigous_ranges ranges = Inr kept \<and> list_ex (in_range n) kept)"
proof -
  let ?rng = "\<lparr>width = ''N'', start = 0, end_cp = 0\<rparr>"
  let ?ps = "points int16 True chars"
  from get_ranges_point [OF assms(1,3,6-8)] obtain k
    where k: "read_char int16 True c = Inr (Some (k, n))" and p: "(k, n) \<in> set ?ps" by blast
  have ne: "ea c \<noteq> Some []" using assms(5) by auto
  have cls: "effective_class True c = Some ''W''"
    using assms(4) by (simp add: effective_class_def)
  with read_char_class [OF k ne] have kW: "k = ''W''" by simp
  have runs: "ranges = runs ?rng ?ps" using assms(1) by (rule get_ranges_runs)
  from runs_tail_chain [OF assms(2), of ?rng]
  have chain: "sorted_wrt (\<lambda>a b. end_cp a < start b) (tl ranges)"
    and bounds: "\<forall>r\<in>set (tl ranges). start r \<le> end_cp r"
    and cover: "\<forall>kn\<in>set ?ps. fst kn \<noteq> ''N'' \<longrightarrow>
        (\<exists>r\<in>set (tl ranges). in_range (snd kn) r \<and> width r = fst kn)"
    unfolding runs by simp_all
  from cover p kW obtain r where r: "r \<in> set (tl ranges)" "in_range n r" "width r = ''W''"
    by force
  have valid: "width x \<in> {''N'', ''A'', ''W''}" if "x \<in> set (tl ranges)" for x
    using get_ranges_width [OF assms(1)] that by (cases ranges) auto
  have "\<exists>merged. merge_ranges (tl ranges) is_same_width_wide = Inr merged
      \<and> (\<exists>r'\<in>set merged. width r' \<notin> set [''N'', ''A''] \<and> in_range n r')"
  proof (rule table_covers
      [of is_same_width_wide "\<lambda>w. w \<notin> set [''N'', ''A'']" "tl ranges" r n])
    show "(width a \<notin> set [''N'', ''A'']) = (width b \<notin> set [''N'', ''A''])"
      if "is_same_width_wide a b" for a b
      using that by (rule is_same_width_wide_keep)
    show "is_same_width_wide x x" if "x \<in> set (tl ranges)" for x
      using valid [OF that] by (rule is_same_width_wide_refl)
    show "width r \<notin> set [''N'', ''A'']" using r(3) by simp
  qed (rule chain bounds r(1) r(2))+
  then have wide: "\<exists>kept. wide_ranges ranges = Inr kept \<and> list_ex (in_range n) kept"
    by (auto simp: wide_ranges_def drop_Suc skip_ranges_filter list_ex_iff)
  have "\<exists>merged. merge_ranges (tl ranges) is_same_width_ambigous = Inr merged
      \<and> (\<exists>r'\<in>set merged. width r' \<notin> set [''N''] \<and> in_range n r')"
  proof (rule table_covers
      [of is_same_width_ambigous "\<lambda>w. w \<notin> set [''N'']" "tl ranges" r n])
    show "(width a \<notin> set [''N'']) = (width b \<notin> set [''N''])"
      if "is_same_width_ambigous a b" for a b
      using that by (rule is_same_width_ambigous_keep)
    show "is_same_width_ambigous x x" if "x \<in> set (tl ranges)" for x
      using valid [OF that] by (rule is_same_width_ambigous_refl)
    show "width r \<notin> set [''N'']" using r(3) by simp
  qed (rule chain bounds r(1) r(2))+
  then have amb: "\<exists>kept. ambigous_ranges ranges = Inr kept \<and> list_ex (in_range n) kept"
    by (auto simp: ambigous_ranges_def drop_Suc skip_ranges_filter list_ex_iff)
  from k kW cls wide amb show ?thesis by simp
qed

theorem emoji_in_both_tables_witness:
  "get_ranges hex_int sample_chars True = Inr sample_ranges
   \<and> \<lparr>ea = Some ''N'', cp = Some ''1F600'', ExtPict = Some ''Y''\<rparr> \<in> set sample_chars
   \<and> hex_int ''1F600'' = Some 128512
   \<and> read_char hex_int True \<lparr>ea = Some ''N'', cp = Some ''1F600'', ExtPict = Some ''Y''\<rparr>
       = Inr (Some (''W'', 128512))
   \<and> wide_ranges sample_ranges = Inr [\<lparr>width = ''W'', start = 12288, end_cp = 128512\<rparr>]
   \<and> list_ex (in_range 128512) [\<lparr>width = ''W'', start = 12288, end_cp = 128512\<rparr>]"
proof -
  let ?c = "\<lparr>ea = Some ''N'', cp = Some ''1F600'', ExtPict = Some ''Y''\<rparr>"
  have s: "sorted_wrt (<) (map snd (points hex_int True sample_chars))"
    by (simp add: points_sample)
  have c: "?c \<in> set sample_chars" by (simp add: sample_chars_def)
  have "read_char hex_int True ?c = Inr (Some (''W'', 128512))"
    using emoji_in_both_tables [OF get_ranges_sample s c, of "''1F600''" 128512]
    by (simp add: hex_int_samples)
  then show ?thesis
    by (simp add: get_ranges_sample c hex_int_samples wide_ranges_sample in_range_def)
qed

text \<open>The claim says that no entry of the ambiguous table holds such a code point; the
  table written for a single narrow emoji has it as its only entry.\<close>

theorem emoji_in_ambiguous_table:
  "get_ranges hex_int emoji_chars True
     = Inr [\<lparr>width = ''N'', start = 0, end_cp = 0\<rparr>,
            \<lparr>width = ''W'', start = 128512, end_cp = 128512\<rparr>]
   \<and> ambigous_ranges [\<lparr>width = ''N'', start = 0, end_cp = 0\<rparr>,
            \<lparr>width = ''W'', start = 128512, end_cp = 128512\<rparr>]
     = Inr [\<lparr>width = ''W'', start = 128512, end_cp = 128512\<rparr>]
   \<and> in_range 128512 \<lparr>width = ''W'', start = 128512, end_cp = 128512\<rparr>
   \<and> ambigous_cases [\<lparr>width = ''W'', start = 128512, end_cp = 128512\<rparr>]
     = [''       case 0x1F600:'' @ [CHR 0x0A]]"
  by (simp add: get_ranges_def emoji_chars_def read_char_def hex_int_samples
      ambigous_ranges_def merge_ranges_def is_same_width_ambigous_def skip_ranges_def
      in_range_def ambigous_cases_def case_line_def format_X_samples nl_def)

section \<open>C3: neighbours after the fold\<close>

text \<open>
  C3, as the code has it. For each of the two policies, in the result of \<^verbatim>\<open>merge_ranges\<close>
  on the ranges of \<^verbatim>\<open>get_ranges\<close> without the placeholder, and before \<^verbatim>\<open>skip_ranges\<close>, no
  two neighbours \<open>r1\<close>, \<open>r2\<close> satisfy \<open>is_same_width r1 r2\<close>.
\<close>

theorem merged_ranges_not_mergeable:
  assumes "get_ranges int16 chars emoji_as_wide = Inr ranges"
  shows "(\<forall>merged. merge_ranges (drop 1 ranges) is_same_width_ambigous = Inr merged \<longrightarrow>
            successively (\<lambda>r1 r2. \<not> is_same_width_ambigous r1 r2) merged)
       \<and> (\<forall>merged. merge_ranges (drop 1 ranges) is_same_width_wide = Inr merged \<longrightarrow>
            successively (\<lambda>r1 r2. \<not> is_same_width_wide r1 r2) merged)"
proof (cases "drop 1 ranges")
  case Nil
  then show ?thesis by (simp add: merge_ranges_def)
next
  case (Cons r1 rest)
  have valid: "\<forall>r\<in>set (r1 # rest). width r \<in> {''N'', ''A'', ''W''}"
    using get_ranges_width [OF assms] Cons [symmetric] by (auto dest: in_set_dropD)
  then have w: "width r1 \<in> {''N'', ''A'', ''W''}" by simp
  have "merge_ranges (r1 # rest) is_same_width_ambigous
      = Inr (fold_ranges is_same_width_ambigous r1 rest)"
    using is_same_width_ambigous_refl [OF w] by (rule merge_ranges_fold)
  moreover have "merge_ranges (r1 # rest) is_same_width_wide
      = Inr (fold_ranges is_same_width_wide r1 rest)"
    using is_same_width_wide_refl [OF w] by (rule merge_ranges_fold)
  ultimately show ?thesis
    unfolding Cons
    using is_same_width_ambigous_adjacent [OF valid] is_same_width_wide_adjacent [OF valid]
    by simp
qed

theorem merged_ranges_not_mergeable_witness:
  "get_ranges hex_int sample_chars True = Inr sample_ranges
   \<and> merge_ranges (drop 1 sample_ranges) is_same_width_ambigous
       = Inr [\<lparr>width = ''A'', start = 161, end_cp = 161\<rparr>,
              \<lparr>width = ''N'', start = 162, end_cp = 162\<rparr>,
              \<lparr>width = ''A'', start = 163, end_cp = 128512\<rparr>]
   \<and> successively (\<lambda>r1 r2. \<not> is_same_width_ambigous r1 r2)
        [\<lparr>width = ''A'', start = 161, end_cp = 161\<rparr>,
         \<lparr>width = ''N'', start = 162, end_cp = 162\<rparr>,
         \<lparr>width = ''A'', start = 163, end_cp = 128512\<rparr>]"
proof -
  have m: "merge_ranges (drop 1 sample_ranges) is_same_width_ambigous
       = Inr [\<lparr>width = ''A'', start = 161, end_cp = 161\<rparr>,
              \<lparr>width = ''N'', start = 162, end_cp = 162\<rparr>,
              \<lparr>width = ''A'', start = 163, end_cp = 128512\<rparr>]"
    by (simp add: sample_ranges_def merge_ranges_def is_same_width_ambigous_def)
  from merged_ranges_not_mergeable [OF get_ranges_sample] m
  have "successively (\<lambda>r1 r2. \<not> is_same_width_ambigous r1 r2)
        [\<lparr>width = ''A'', start = 161, end_cp = 161\<rparr>,
         \<lparr>width = ''N'', start = 162, end_cp = 162\<rparr>,
         \<lparr>width = ''A'', start = 163, end_cp = 128512\<rparr>]"
    by blast
  with m get_ranges_sample show ?thesis by blast
qed

text \<open>After \<^verbatim>\<open>skip_ranges\<close> the claim fails: the filter removes the narrow range between two
  kept ranges, and the two kept ranges are of the same width for the policy.\<close>

theorem kept_neighbours_same_width:
  "get_ranges hex_int sample_chars True = Inr sample_ranges
   \<and> ambigous_ranges sample_ranges
     = Inr [\<lparr>width = ''A'', start = 161, end_cp = 161\<rparr>,
            \<lparr>width = ''A'', start = 163, end_cp = 128512\<rparr>]
   \<and> is_same_width_ambigous \<lparr>width = ''A'', start = 161, end_cp = 161\<rparr>
        \<lparr>width = ''A'', start = 163, end_cp = 128512\<rparr>"
  by (simp add: get_ranges_sample ambigous_ranges_sample is_same_width_ambigous_def)

section \<open>C4: the widths left in the two tables\<close>

text \<open>
  C4. On the ranges \<^verbatim>\<open>get_ranges\<close> returns, every range of the wide table (after
  \<^verbatim>\<open>merge_ranges\<close> and \<^verbatim>\<open>skip_ranges\<close>) has width W, and no range of the ambiguous table
  has width N: each has width A or W.
\<close>

theorem table_widths:
  assumes "get_ranges int16 chars emoji_as_wide = Inr ranges"
  shows "(\<forall>kept. wide_ranges ranges = Inr kept \<longrightarrow> (\<forall>r\<in>set kept. width r = ''W''))
       \<and> (\<forall>kept. ambigous_ranges ranges = Inr kept \<longrightarrow>
            (\<forall>r\<in>set kept. width r \<noteq> ''N'' \<and> width r \<in> {''A'', ''W''}))"
proof -
  have valid: "width r \<in> {''N'', ''A'', ''W''}" if "r \<in> set (drop 1 ranges)" for r
    using get_ranges_width [OF assms] that by (auto dest: in_set_dropD)
  have merged: "width r' \<in> {''N'', ''A'', ''W''}"
    if "merge_ranges (drop 1 ranges) f = Inr out" "r' \<in> set out" for f out r'
  proof -
    from merge_ranges_origin [OF that] obtain r
      where "r \<in> set (drop 1 ranges)" and "width r' = width r" by blast
    with valid [of r] show ?thesis by simp
  qed
  have wide: "width r = ''W''" if "wide_ranges ranges = Inr kept" "r \<in> set kept" for kept r
  proof -
    from that obtain out where "merge_ranges (drop 1 ranges) is_same_width_wide = Inr out"
      and "r \<in> set out" and "width r \<notin> {''N'', ''A''}"
      by (auto simp: wide_ranges_def skip_ranges_filter split: sum.splits)
    with merged [of is_same_width_wide out r] show ?thesis by auto
  qed
  have amb: "width r \<noteq> ''N'' \<and> width r \<in> {''A'', ''W''}"
    if "ambigous_ranges ranges = Inr kept" "r \<in> set kept" for kept r
  proof -
    from that obtain out where "merge_ranges (drop 1 ranges) is_same_width_ambigous = Inr out"
      and "r \<in> set out" and "width r \<noteq> ''N''"
      by (auto simp: ambigous_ranges_def skip_ranges_filter split: sum.splits)
    with merged [of is_same_width_ambigous out r] show ?thesis by auto
  qed
  from wide amb show ?thesis by blast
qed

theorem table_widths_witness:
  "get_ranges hex_int sample_chars True = Inr sample_ranges
   \<and> wide_ranges sample_ranges = Inr [\<lparr>width = ''W'', start = 12288, end_cp = 128512\<rparr>]
   \<and> width \<lparr>width = ''W'', start = 12288, end_cp = 128512\<rparr> = ''W''
   \<and> ambigous_ranges sample_ranges =
       Inr [\<lparr>width = ''A'', start = 161, end_cp = 161\<rparr>,
            \<lparr>width = ''A'', start = 163, end_cp = 128512\<rparr>]
   \<and> width \<lparr>width = ''A'', start = 163, end_cp = 128512\<rparr> \<in> {''A'', ''W''}"
  using table_widths [OF get_ranges_sample] get_ranges_sample wide_ranges_sample
    ambigous_ranges_sample
  by simp

section \<open>C5: the threshold of the fast path\<close>

text \<open>
  C5, as the code has it. Let the elements with a code point come in strictly increasing
  order of non-negative code points, and let code point 0, if the stream has it, be of
  class N. Then the end of the first range is the end of the first maximal narrow run
  starting at 0, the header \<^verbatim>\<open>gen_c\<close> writes tests against that value, and no code point up
  to it lies in a range of the ambiguous table or of the wide table.
\<close>

theorem threshold_below_tables:
  assumes "get_ranges int16 chars emoji_as_wide = Inr ranges"
    and "sorted_wrt (<) (map snd (points int16 emoji_as_wide chars))"
    and "\<forall>kn\<in>set (points int16 emoji_as_wide chars).
           0 \<le> snd kn \<and> (snd kn = 0 \<longrightarrow> fst kn = ''N'')"
  shows "end_cp (hd ranges) = narrow_run_end (points int16 emoji_as_wide chars)
       \<and> (\<forall>hdr src. gen_c ranges = Inr (hdr, src) \<longrightarrow>
            hdr = [header_top,
                   ''   if (g <= 0x''
                     @ format_X (narrow_run_end (points int16 emoji_as_wide chars)) @ '')'',
                   header_bottom])
       \<and> (\<forall>kept p. (ambigous_ranges ranges = Inr kept \<or> wide_ranges ranges = Inr kept)
              \<and> p \<le> narrow_run_end (points int16 emoji_as_wide chars) \<longrightarrow>
            \<not> list_ex (in_range p) kept)"
proof -
  let ?rng = "\<lparr>width = ''N'', start = 0, end_cp = 0\<rparr>"
  let ?ps = "points int16 emoji_as_wide chars"
  have runs: "ranges = runs ?rng ?ps" using assms(1) by (rule get_ranges_runs)
  have "ranges \<noteq> []" unfolding runs by (rule runs_nonempty)
  then obtain r0 rest where c: "ranges = r0 # rest" by (cases ranges) auto
  have t: "end_cp (hd ranges) = narrow_run_end ?ps"
    unfolding runs narrow_run_end_def using runs_hd_end [of ?rng ?ps]
    by (simp split: list.splits)
  then have t0: "end_cp r0 = narrow_run_end ?ps" by (simp add: c)
  have hdr: "hdr = [header_top, ''   if (g <= 0x'' @ format_X (narrow_run_end ?ps) @ '')'',
      header_bottom]" if "gen_c ranges = Inr (hdr, src)" for hdr src
    using that t0
    by (auto simp: c gen_c_def gen_header_def threshold_line_def split: sum.splits)
  have "\<forall>kn\<in>set ?ps. end_cp ?rng \<le> snd kn \<and> (snd kn = end_cp ?rng \<longrightarrow> fst kn = width ?rng)"
    using assms(3) by simp
  moreover have "start ?rng \<le> end_cp ?rng" by simp
  ultimately have "sorted_wrt (\<lambda>a b. end_cp a < start b) ranges"
    unfolding runs using runs_chain [OF assms(2), of ?rng] by blast
  then have above: "\<forall>r\<in>set rest. end_cp r0 < start r" by (simp add: c)
  have merged: "\<not> in_range p r'"
    if "merge_ranges rest f = Inr out" "r' \<in> set out" "p \<le> narrow_run_end ?ps" for f out r' p
  proof -
    from merge_ranges_origin [OF that(1,2)] obtain r
      where "r \<in> set rest" "start r' = start r" by blast
    with above that(3) t0 show ?thesis by (auto simp: in_range_def)
  qed
  have tables: "\<not> list_ex (in_range p) kept"
    if "ambigous_ranges ranges = Inr kept \<or> wide_ranges ranges = Inr kept"
      "p \<le> narrow_run_end ?ps" for kept p
  proof -
    from that(1) obtain f out ws where "merge_ranges rest f = Inr out"
      "kept = skip_ranges out ws"
      by (auto simp: c ambigous_ranges_def wide_ranges_def split: sum.splits)
    with merged [OF _ _ that(2)] show ?thesis
      by (auto simp: skip_ranges_filter list_ex_iff)
  qed
  from t hdr tables show ?thesis by blast
qed

theorem threshold_below_tables_witness:
  "get_ranges hex_int sample_chars True = Inr sample_ranges
   \<and> narrow_run_end (points hex_int True sample_chars) = 65
   \<and> end_cp (hd sample_ranges) = 65
   \<and> ambigous_ranges sample_ranges
       = Inr [\<lparr>width = ''A'', start = 161, end_cp = 161\<rparr>,
              \<lparr>width = ''A'', start = 163, end_cp = 128512\<rparr>]
   \<and> \<not> list_ex (in_range 65) [\<lparr>width = ''A'', start = 161, end_cp = 161\<rparr>,
              \<lparr>width = ''A'', start = 163, end_cp = 128512\<rparr>]"
proof -
  have s: "sorted_wrt (<) (map snd (points hex_int True sample_chars))"
    by (simp add: points_sample)
  have z: "\<forall>kn\<in>set (points hex_int True sample_chars).
      0 \<le> snd kn \<and> (snd kn = 0 \<longrightarrow> fst kn = ''N'')"
    by (simp add: points_sample)
  have n: "narrow_run_end (points hex_int True sample_chars) = 65"
    by (simp add: points_sample narrow_run_end_def)
  from threshold_below_tables [OF get_ranges_sample s z]
  have "end_cp (hd sample_ranges) = narrow_run_end (points hex_int True sample_chars)"
    by blast
  with n show ?thesis
    by (simp add: get_ranges_sample ambigous_ranges_sample in_range_def)
qed

text \<open>Without the condition on code point 0 the claim fails: when code point 0 is
  ambiguous the threshold is 0 and the ambiguous table has the entry \<^verbatim>\<open>case 0x0:\<close>.\<close>

theorem code_point_zero_below_threshold_in_table:
  "get_ranges hex_int zero_chars True
     = Inr [\<lparr>width = ''N'', start = 0, end_cp = 0\<rparr>, \<lparr>width = ''A'', start = 0, end_cp = 0\<rparr>]
   \<and> gen_header \<lparr>width = ''N'', start = 0, end_cp = 0\<rparr>
     = [header_top, ''   if (g <= 0x0)'', header_bottom]
   \<and> ambigous_ranges
       [\<lparr>width = ''N'', start = 0, end_cp = 0\<rparr>, \<lparr>width = ''A'', start = 0, end_cp = 0\<rparr>]
     = Inr [\<lparr>width = ''A'', start = 0, end_cp = 0\<rparr>]
   \<and> in_range 0 \<lparr>width = ''A'', start = 0, end_cp = 0\<rparr>"
  by (simp add: get_ranges_def zero_chars_def read_char_def hex_int_def hex_value_def
      gen_header_def threshold_line_def format_X_def hex_digit_def
      ambigous_ranges_def merge_ranges_def is_same_width_ambigous_def skip_ranges_def
      in_range_def)

section \<open>C6: which elements fail the assertion\<close>

text \<open>
  C6. The claim is that extraction aborts on exactly the elements whose raw width is outside
  Na, N, H, A, W, F. The code does not abort on the empty width: \<^verbatim>\<open>'' in ('F')\<close> is a
  substring test against the string \<^verbatim>\<open>'F'\<close>, which holds, so the empty width is read as W
  and the assertion passes. The run below returns a wide range for such an element.
\<close>

theorem empty_ea_read_as_wide:
  "get_ranges hex_int [\<lparr>ea = Some [], cp = Some ''41'', ExtPict = None\<rparr>] True
     = Inr [\<lparr>width = ''N'', start = 0, end_cp = 0\<rparr>, \<lparr>width = ''W'', start = 65, end_cp = 65\<rparr>]"
  by (simp add: get_ranges_def read_char_def hex_int_samples)

section \<open>C7: the placeholder range\<close>

text \<open>
  C7. Whenever \<^verbatim>\<open>get_ranges\<close> returns, its result is not empty and its first range has
  width N and start 0. Both tables are computed from the tail of the result: they are the
  merge and the filter of \<open>tl ranges\<close>, and do not change when the first range is replaced
  by any other; the whole output of \<^verbatim>\<open>gen_c\<close> depends on the first range through its end
  only.
\<close>

theorem get_ranges_placeholder:
  assumes "get_ranges int16 chars emoji_as_wide = Inr ranges"
  shows "ranges \<noteq> [] \<and> width (hd ranges) = ''N'' \<and> start (hd ranges) = 0
       \<and> ambigous_ranges ranges =
           (case merge_ranges (tl ranges) is_same_width_ambigous of
              Inl err \<Rightarrow> Inl err | Inr merged \<Rightarrow> Inr (skip_ranges merged [''N'']))
       \<and> wide_ranges ranges =
           (case merge_ranges (tl ranges) is_same_width_wide of
              Inl err \<Rightarrow> Inl err | Inr merged \<Rightarrow> Inr (skip_ranges merged [''N'', ''A'']))
       \<and> (\<forall>first. ambigous_ranges (first # tl ranges) = ambigous_ranges ranges
                 \<and> wide_ranges (first # tl ranges) = wide_ranges ranges)
       \<and> (\<forall>first. end_cp first = end_cp (hd ranges) \<longrightarrow>
             gen_c (first # tl ranges) = gen_c ranges)"
proof -
  have r: "ranges = runs \<lparr>width = ''N'', start = 0, end_cp = 0\<rparr> (points int16 emoji_as_wide chars)"
    using assms by (rule get_ranges_runs)
  then have ne: "ranges \<noteq> []" by (simp add: runs_nonempty)
  then obtain r0 rest where c: "ranges = r0 # rest" by (cases ranges) auto
  have hd: "width (hd ranges) = ''N'' \<and> start (hd ranges) = 0"
    using runs_hd [of "\<lparr>width = ''N'', start = 0, end_cp = 0\<rparr>"] r by simp
  have tables: "ambigous_ranges (first # rest) = ambigous_ranges ranges
      \<and> wide_ranges (first # rest) = wide_ranges ranges" for first
    unfolding c using ambigous_ranges_tail wide_ranges_tail by blast
  have emit: "gen_c (first # rest) = gen_c ranges" if "end_cp first = end_cp r0" for first
  proof -
    have ga: "gen_ambigous (first # rest) = gen_ambigous (r0 # rest)"
      using tables [of first] by (simp add: c gen_ambigous_def)
    have gw: "gen_wide (first # rest) = gen_wide (r0 # rest)"
      using tables [of first] by (simp add: c gen_wide_def)
    have gh: "gen_header first = gen_header r0"
      using that by (simp add: gen_header_def threshold_line_def)
    show ?thesis by (simp add: c gen_c_def ga gw gh split: sum.splits)
  qed
  have amb: "ambigous_ranges ranges =
           (case merge_ranges (tl ranges) is_same_width_ambigous of
              Inl err \<Rightarrow> Inl err | Inr merged \<Rightarrow> Inr (skip_ranges merged [''N'']))"
    by (simp add: c ambigous_ranges_def)
  have wide: "wide_ranges ranges =
           (case merge_ranges (tl ranges) is_same_width_wide of
              Inl err \<Rightarrow> Inl err | Inr merged \<Rightarrow> Inr (skip_ranges merged [''N'', ''A'']))"
    by (simp add: c wide_ranges_def)
  have tl: "tl ranges = rest" and hd0: "hd ranges = r0" by (simp_all add: c)
  show ?thesis
    unfolding tl hd0
    using ne hd amb wide tables emit
    unfolding tl hd0
    by blast
qed

theorem get_ranges_placeholder_witness:
  "get_ranges hex_int sample_chars True = Inr sample_ranges
   \<and> sample_ranges \<noteq> [] \<and> width (hd sample_ranges) = ''N'' \<and> start (hd sample_ranges) = 0
   \<and> end_cp \<lparr>width = ''W'', start = 7, end_cp = 65\<rparr> = end_cp (hd sample_ranges)
   \<and> gen_c (\<lparr>width = ''W'', start = 7, end_cp = 65\<rparr> # tl sample_ranges) = gen_c sample_ranges"
proof -
  have e: "end_cp \<lparr>width = ''W'', start = 7, end_cp = 65\<rparr> = end_cp (hd sample_ranges)"
    by (simp add: sample_ranges_def)
  from get_ranges_placeholder [OF get_ranges_sample] get_ranges_sample e
  show ?thesis by blast
qed

section \<open>C8: the case entries and their continuation markers\<close>

lemma case_line_label: "case_line r ft = case_label r @ ft @ nl"
  by (simp add: case_line_def case_label_def)

lemma gen_ambigous_loop_lines:
  assumes "\<forall>r\<in>set rs. width r \<noteq> ''N''" and "rs \<noteq> []" and "n = idx + length rs"
  shows "gen_ambigous_loop n idx ft rs
           = map (\<lambda>r. case_line r ft) (butlast rs) @ [case_line (last rs) []]"
  using assms
proof (induction rs arbitrary: idx)
  case Nil
  then show ?case by simp
next
  case (Cons r rs)
  show ?case
  proof (cases "rs = []")
    case True
    with Cons.prems show ?thesis by simp
  next
    case False
    with Cons.prems have "int idx \<noteq> int n - 1" by (cases rs) auto
    moreover have "gen_ambigous_loop n (idx + 1) ft rs
        = map (\<lambda>r. case_line r ft) (butlast rs) @ [case_line (last rs) []]"
      using Cons.IH [of "idx + 1"] Cons.prems False by simp
    ultimately show ?thesis using Cons.prems False by simp
  qed
qed

lemma gen_wide_loop_lines:
  assumes "\<forall>r\<in>set rs. width r \<notin> {''N'', ''A''}" and "rs \<noteq> []" and "n = idx + length rs"
  shows "gen_wide_loop n idx ft rs
           = map (\<lambda>r. case_line r ft) (butlast rs) @ [case_line (last rs) []]"
  using assms
proof (induction rs arbitrary: idx)
  case Nil
  then show ?case by simp
next
  case (Cons r rs)
  show ?case
  proof (cases "rs = []")
    case True
    with Cons.prems show ?thesis by simp
  next
    case False
    with Cons.prems have "int idx \<noteq> int n - 1" by (cases rs) auto
    moreover have "gen_wide_loop n (idx + 1) ft rs
        = map (\<lambda>r. case_line r ft) (butlast rs) @ [case_line (last rs) []]"
      using Cons.IH [of "idx + 1"] Cons.prems False by simp
    ultimately show ?thesis using Cons.prems False by simp
  qed
qed

lemma ambigous_cases_expected:
  assumes "\<forall>r\<in>set kept. width r \<noteq> ''N''"
  shows "ambigous_cases kept = expected_cases kept"
proof (cases "kept = []")
  case True
  then show ?thesis by (simp add: ambigous_cases_def expected_cases_def)
next
  case False
  with gen_ambigous_loop_lines [OF assms False, of "length kept" 0 EINA_FALLTHROUGH]
  show ?thesis
    by (simp add: ambigous_cases_def expected_cases_def case_line_label EINA_FALLTHROUGH_def
        nl_def)
qed

lemma wide_cases_expected:
  assumes "\<forall>r\<in>set kept. width r \<notin> {''N'', ''A''}"
  shows "wide_cases kept = expected_cases kept"
proof (cases "kept = []")
  case True
  then show ?thesis by (simp add: wide_cases_def expected_cases_def)
next
  case False
  with gen_wide_loop_lines [OF assms False, of "length kept" 0 EINA_FALLTHROUGH]
  show ?thesis
    by (simp add: wide_cases_def expected_cases_def case_line_label EINA_FALLTHROUGH_def
        nl_def)
qed

text \<open>
  C8. Whenever \<^verbatim>\<open>gen_ambigous\<close> or \<^verbatim>\<open>gen_wide\<close> returns, what it wrote between the head
  and the foot of the \<^verbatim>\<open>switch\<close> is one case entry for each range of its table, in order:
  the entry of a range of one code point is a single match value and the entry of any
  other range an inclusive bounded match, every entry but the last is followed by the
  marker \<^verbatim>\<open>EINA_FALLTHROUGH;\<close>, and the last entry carries no marker.
\<close>

theorem case_entries_fallthrough:
  "(\<forall>out. gen_ambigous ranges = Inr out \<longrightarrow>
      (\<exists>kept. ambigous_ranges ranges = Inr kept
         \<and> out = [switch_top ''_termpty_is_ambigous_wide''] @ expected_cases kept
                 @ [switch_bottom]))
   \<and> (\<forall>out. gen_wide ranges = Inr out \<longrightarrow>
      (\<exists>kept. wide_ranges ranges = Inr kept
         \<and> out = [switch_top ''_termpty_is_wide''] @ expected_cases kept @ [switch_bottom]))"
proof (intro conjI allI impI)
  fix out
  assume "gen_ambigous ranges = Inr out"
  then obtain kept where k: "ambigous_ranges ranges = Inr kept"
    and out: "out = [switch_top ''_termpty_is_ambigous_wide''] @ ambigous_cases kept
                    @ [switch_bottom]"
    by (auto simp: gen_ambigous_def split: sum.splits)
  from ambigous_cases_expected [OF ambigous_ranges_kept [OF k]] k out
  show "\<exists>kept. ambigous_ranges ranges = Inr kept
         \<and> out = [switch_top ''_termpty_is_ambigous_wide''] @ expected_cases kept
                 @ [switch_bottom]"
    by simp
next
  fix out
  assume "gen_wide ranges = Inr out"
  then obtain kept where k: "wide_ranges ranges = Inr kept"
    and out: "out = [switch_top ''_termpty_is_wide''] @ wide_cases kept @ [switch_bottom]"
    by (auto simp: gen_wide_def split: sum.splits)
  from wide_cases_expected [OF wide_ranges_kept [OF k]] k out
  show "\<exists>kept. wide_ranges ranges = Inr kept
         \<and> out = [switch_top ''_termpty_is_wide''] @ expected_cases kept @ [switch_bottom]"
    by simp
qed

lemma expected_cases_sample:
  "expected_cases [\<lparr>width = ''A'', start = 161, end_cp = 161\<rparr>,
          \<lparr>width = ''A'', start = 163, end_cp = 128512\<rparr>]
   = [''       case 0xA1: EINA_FALLTHROUGH;'' @ [CHR 0x0A],
      ''       case 0xA3 ... 0x1F600:'' @ [CHR 0x0A]]"
  by (simp add: expected_cases_def case_label_def format_X_samples)

theorem case_entries_fallthrough_witness:
  "gen_ambigous sample_ranges
     = Inr [switch_top ''_termpty_is_ambigous_wide'',
            ''       case 0xA1: EINA_FALLTHROUGH;'' @ [CHR 0x0A],
            ''       case 0xA3 ... 0x1F600:'' @ [CHR 0x0A],
            switch_bottom]
   \<and> gen_wide sample_ranges
     = Inr [switch_top ''_termpty_is_wide'',
            ''       case 0x3000 ... 0x1F600:'' @ [CHR 0x0A],
            switch_bottom]"
proof -
  obtain a where a: "gen_ambigous sample_ranges = Inr a"
    by (simp add: gen_ambigous_def ambigous_ranges_sample)
  obtain w where w: "gen_wide sample_ranges = Inr w"
    by (simp add: gen_wide_def wide_ranges_sample)
  from case_entries_fallthrough [of sample_ranges] a w
  show ?thesis
    by (simp add: ambigous_ranges_sample wide_ranges_sample expected_cases_def case_label_def
        format_X_samples)
qed

section \<open>C9: \<^verbatim>\<open>merge_ranges\<close> against the specified fold\<close>

text \<open>
  C9. \<^verbatim>\<open>merge_ranges\<close> starts its accumulator at the first range and then visits the whole
  list, the first range included; the specification's fold visits only the ranges after
  the first. On a non-empty list whose first range carries one of the three width classes
  the two return the same ranges, for the ambiguous and for the wide predicate: each
  predicate holds of a range and itself, so the first visit only sets the accumulator's
  end to its own end.
\<close>

theorem merge_ranges_is_spec_fold:
  assumes "ranges \<noteq> []" and "width (hd ranges) \<in> {''N'', ''A'', ''W''}"
  shows "merge_ranges ranges is_same_width_ambigous
           = Inr (merge_spec ranges is_same_width_ambigous)
       \<and> merge_ranges ranges is_same_width_wide
           = Inr (merge_spec ranges is_same_width_wide)"
proof (cases ranges)
  case Nil
  with assms show ?thesis by simp
next
  case (Cons r0 rs)
  with assms have w: "width r0 \<in> {''N'', ''A'', ''W''}" by simp
  show ?thesis
    unfolding Cons merge_spec_def
    using is_same_width_ambigous_refl [OF w] is_same_width_wide_refl [OF w]
    by (simp add: merge_ranges_fold)
qed

theorem merge_ranges_is_spec_fold_witness:
  "[\<lparr>width = ''A'', start = 161, end_cp = 161\<rparr>, \<lparr>width = ''W'', start = 162, end_cp = 170\<rparr>,
    \<lparr>width = ''N'', start = 171, end_cp = 171\<rparr>] \<noteq> []
   \<and> width (hd [\<lparr>width = ''A'', start = 161, end_cp = 161\<rparr>,
        \<lparr>width = ''W'', start = 162, end_cp = 170\<rparr>,
        \<lparr>width = ''N'', start = 171, end_cp = 171\<rparr>]) \<in> {''N'', ''A'', ''W''}
   \<and> merge_ranges [\<lparr>width = ''A'', start = 161, end_cp = 161\<rparr>,
        \<lparr>width = ''W'', start = 162, end_cp = 170\<rparr>,
        \<lparr>width = ''N'', start = 171, end_cp = 171\<rparr>] is_same_width_ambigous
       = Inr [\<lparr>width = ''A'', start = 161, end_cp = 170\<rparr>,
              \<lparr>width = ''N'', start = 171, end_cp = 171\<rparr>]
   \<and> merge_ranges [\<lparr>width = ''A'', start = 161, end_cp = 161\<rparr>,
        \<lparr>width = ''W'', start = 162, end_cp = 170\<rparr>,
        \<lparr>width = ''N'', start = 171, end_cp = 171\<rparr>] is_same_width_wide
       = Inr [\<lparr>width = ''A'', start = 161, end_cp = 161\<rparr>,
              \<lparr>width = ''W'', start = 162, end_cp = 170\<rparr>,
              \<lparr>width = ''N'', start = 171, end_cp = 171\<rparr>]"
  using merge_ranges_is_spec_fold
    [of "[\<lparr>width = ''A'', start = 161, end_cp = 161\<rparr>,
          \<lparr>width = ''W'', start = 162, end_cp = 170\<rparr>,
          \<lparr>width = ''N'', start = 171, end_cp = 171\<rparr>]"]
  by (simp add: merge_spec_def is_same_width_ambigous_def is_same_width_wide_def)

section \<open>C10: a result of one range aborts the run\<close>

lemma gen_c_single: "gen_c [r] = Inl IndexError"
  by (simp add: gen_c_def gen_ambigous_def ambigous_ranges_def merge_ranges_def)

text \<open>
  C10. \<^verbatim>\<open>merge_ranges\<close> raises \<^verbatim>\<open>IndexError\<close> on the empty list, so \<^verbatim>\<open>gen_c\<close> raises it on a
  list of exactly one range. When every element with a code point has effective class N
  (in particular when no element has a code point) the run of the script ends in an
  exception: \<^verbatim>\<open>get_ranges\<close>, if it returns, returns one range, and \<^verbatim>\<open>gen_c\<close> then raises
  \<^verbatim>\<open>IndexError\<close>.
\<close>

theorem single_range_aborts:
  "merge_ranges [] is_same_width = Inl IndexError
   \<and> (length ranges = 1 \<longrightarrow> gen_c ranges = Inl IndexError)
   \<and> ((\<forall>kn\<in>set (points int16 True chars). fst kn = ''N'') \<longrightarrow>
        (\<exists>err. main int16 chars = Inl err)
        \<and> (\<forall>rs. get_ranges int16 chars True = Inr rs \<longrightarrow>
             length rs = 1 \<and> main int16 chars = Inl IndexError))"
proof (intro conjI impI allI)
  show "merge_ranges [] is_same_width = Inl IndexError" by (simp add: merge_ranges_def)
next
  assume "length ranges = 1"
  then obtain r where "ranges = [r]" by (cases ranges) auto
  then show "gen_c ranges = Inl IndexError" by (simp add: gen_c_single)
next
  fix rs
  assume n: "\<forall>kn\<in>set (points int16 True chars). fst kn = ''N''"
    and g: "get_ranges int16 chars True = Inr rs"
  from n have "length (runs \<lparr>width = ''N'', start = 0, end_cp = 0\<rparr> (points int16 True chars)) = 1"
    by (intro runs_all_same) simp
  with get_ranges_runs [OF g] show l: "length rs = 1" by simp
  then obtain r where "rs = [r]" by (cases rs) auto
  with g show "main int16 chars = Inl IndexError" by (simp add: main_def gen_c_single)
next
  assume n: "\<forall>kn\<in>set (points int16 True chars). fst kn = ''N''"
  show "\<exists>err. main int16 chars = Inl err"
  proof (cases "get_ranges int16 chars True")
    case (Inl err)
    then show ?thesis by (simp add: main_def)
  next
    case (Inr rs)
    from n have "length (runs \<lparr>width = ''N'', start = 0, end_cp = 0\<rparr> (points int16 True chars)) = 1"
      by (intro runs_all_same) simp
    with get_ranges_runs [OF Inr] have "length rs = 1" by simp
    then obtain r where "rs = [r]" by (cases rs) auto
    with Inr show ?thesis by (simp add: main_def gen_c_single)
  qed
qed

theorem single_range_aborts_witness:
  "length [\<lparr>width = ''N'', start = 0, end_cp = 162\<rparr>] = 1
   \<and> gen_c [\<lparr>width = ''N'', start = 0, end_cp = 162\<rparr>] = Inl IndexError
   \<and> points hex_int True narrow_chars = [(''N'', 65), (''N'', 162)]
   \<and> get_ranges hex_int narrow_chars True = Inr [\<lparr>width = ''N'', start = 0, end_cp = 162\<rparr>]
   \<and> main hex_int narrow_chars = Inl IndexError
   \<and> get_ranges hex_int [] True = Inr [\<lparr>width = ''N'', start = 0, end_cp = 0\<rparr>]
   \<and> main hex_int [] = Inl IndexError"
proof -
  have p: "points hex_int True narrow_chars = [(''N'', 65), (''N'', 162)]"
    by (simp add: narrow_chars_def read_char_def hex_int_samples)
  have g: "get_ranges hex_int narrow_chars True = Inr [\<lparr>width = ''N'', start = 0, end_cp = 162\<rparr>]"
    by (simp add: get_ranges_def narrow_chars_def read_char_def hex_int_samples)
  have e: "get_ranges hex_int [] True = Inr [\<lparr>width = ''N'', start = 0, end_cp = 0\<rparr>]"
    by (simp add: get_ranges_def)
  from single_range_aborts [of is_same_width_wide "[\<lparr>width = ''N'', start = 0, end_cp = 162\<rparr>]" hex_int
      narrow_chars]
    single_range_aborts [of is_same_width_wide "[]" hex_int "[]"] p g e
  show ?thesis by simp
qed

end
